theory Spec2Isabelle
  imports Main "HOL-Library.Word"
begin

section \<open>Data model of cgol.c\<close>

text \<open>
  The structs of \<^verbatim>\<open>cgol.c\<close> are records. Fields that only serve drawing (the pixel
  position \<^verbatim>\<open>x\<close>, \<^verbatim>\<open>y\<close> and the animation \<^verbatim>\<open>size\<close> of a cell, the window size and
  the status text of the board) are left out: no function modelled below reads them.
  Every \<^verbatim>\<open>unsigned int\<close> field is a 32-bit word, so that \<^verbatim>\<open>++\<close> and \<^verbatim>\<open>--\<close> wrap as in C;
  the \<^verbatim>\<open>int\<close> grid coordinates (0 to 249 in the program) are integers.
\<close>

unbundle bit_operations_syntax

type_synonym uint = "32 word"

record cell =
  isLiving :: bool
  cellChanged :: bool
  cellX :: int
  cellY :: int

record playBoard =
  isDirty :: bool
  cellsX :: int
  cellsY :: int
  cellCount :: uint
  livingCells :: uint
  turns :: uint
  cells :: "cell list"

text \<open>\<^verbatim>\<open>#define TURN_LIMIT UINT_MAX\<close>\<close>

definition TURN_LIMIT :: uint where
  "TURN_LIMIT = 4294967295"

text \<open>\<^verbatim>\<open>enum DIRECTIONS\<close>, clockwise from the top.\<close>

definition TOP :: int where "TOP = 0"
definition TOP_RIGHT :: int where "TOP_RIGHT = 1"
definition RIGHT :: int where "RIGHT = 2"
definition BOTTOM_RIGHT :: int where "BOTTOM_RIGHT = 3"
definition BOTTOM :: int where "BOTTOM = 4"
definition BOTTOM_LEFT :: int where "BOTTOM_LEFT = 5"
definition LEFT :: int where "LEFT = 6"
definition TOP_LEFT :: int where "TOP_LEFT = 7"

text \<open>
  A read or write of \<^verbatim>\<open>cells[i]\<close> outside the allocated array is undefined behaviour in C.
  Every function that indexes the array returns an option, and \<open>None\<close> stands for such an
  access (or, for the loops that need not end, for not returning).
\<close>

definition cell_at :: "cell list \<Rightarrow> nat \<Rightarrow> cell option" where
  "cell_at cs i = (if i < length cs then Some (cs ! i) else None)"

definition modify_cell :: "nat \<Rightarrow> (cell \<Rightarrow> cell) \<Rightarrow> playBoard \<Rightarrow> playBoard option" where
  "modify_cell i f gameBoard =
     (if i < length (cells gameBoard)
      then Some (gameBoard\<lparr>cells := (cells gameBoard)[i := f (cells gameBoard ! i)]\<rparr>)
      else None)"

section \<open>Neighbour lookup\<close>

text \<open>The \<^verbatim>\<open>switch (direction)\<close> of \<^verbatim>\<open>get_neighbour_living\<close>: the shift \<open>(calcX, calcY)\<close>,
  \<open>None\<close> in the \<^verbatim>\<open>default\<close> case.\<close>

definition direction_shift :: "int \<Rightarrow> (int \<times> int) option" where
  "direction_shift direction =
     (if direction = TOP then Some (0, -1)
      else if direction = TOP_RIGHT then Some (1, -1)
      else if direction = RIGHT then Some (1, 0)
      else if direction = BOTTOM_RIGHT then Some (1, 1)
      else if direction = BOTTOM then Some (0, 1)
      else if direction = BOTTOM_LEFT then Some (-1, 1)
      else if direction = LEFT then Some (-1, 0)
      else if direction = TOP_LEFT then Some (-1, -1)
      else None)"

text \<open>The two offset calculations of \<^verbatim>\<open>get_neighbour_living\<close>: \<open>(limitX, limitY)\<close>.\<close>

definition neighbour_limits :: "cell \<Rightarrow> playBoard \<Rightarrow> int \<times> int \<Rightarrow> int \<times> int" where
  "neighbour_limits gameCell gameBoard calc =
     (let calcX = fst calc; calcY = snd calc;
          limitX =
            (if calcX = -1
             then (if cellX gameCell = 0 then cellsX gameBoard - 1 else cellX gameCell - 1)
             else if calcX = 1
             then (if cellX gameCell = cellsX gameBoard - 1 then 0 else cellX gameCell + 1)
             else cellX gameCell);
          limitY =
            (if calcY = -1
             then (if cellY gameCell = 0 then cellsY gameBoard - 1 else cellY gameCell - 1)
             else if calcY = 1
             then (if cellY gameCell = cellsY gameBoard - 1 then 0 else cellY gameCell + 1)
             else cellY gameCell)
      in (limitX, limitY))"

text \<open>The array offset \<^verbatim>\<open>limitX + (limitY * gameBoard->cellsY)\<close> that is read.\<close>

definition neighbour_offset :: "cell \<Rightarrow> playBoard \<Rightarrow> int \<Rightarrow> int option" where
  "neighbour_offset gameCell gameBoard direction =
     (case direction_shift direction of
        None \<Rightarrow> None
      | Some calc \<Rightarrow>
          (let lim = neighbour_limits gameCell gameBoard calc
           in Some (fst lim + snd lim * cellsY gameBoard)))"

definition get_neighbour_living :: "cell \<Rightarrow> playBoard \<Rightarrow> int \<Rightarrow> bool option" where
  "get_neighbour_living gameCell gameBoard direction =
     (case neighbour_offset gameCell gameBoard direction of
        None \<Rightarrow> Some False
      | Some off \<Rightarrow>
          (if 0 \<le> off \<and> off < int (length (cells gameBoard))
           then Some (isLiving (cells gameBoard ! nat off))
           else None))"

section \<open>One turn\<close>

text \<open>The inner loop \<^verbatim>\<open>for (int j = 0; j < 8; ++j)\<close> of \<^verbatim>\<open>applyTurn\<close>.\<close>

fun count_neighbours :: "cell \<Rightarrow> playBoard \<Rightarrow> int list \<Rightarrow> nat \<Rightarrow> nat option" where
  "count_neighbours gameCell gameBoard [] livingNeighbours = Some livingNeighbours"
| "count_neighbours gameCell gameBoard (j # js) livingNeighbours =
     (case get_neighbour_living gameCell gameBoard j of
        None \<Rightarrow> None
      | Some living \<Rightarrow>
          count_neighbours gameCell gameBoard js
            (if living then livingNeighbours + 1 else livingNeighbours))"

definition all_directions :: "int list" where
  "all_directions = [0, 1, 2, 3, 4, 5, 6, 7]"

text \<open>The first loop of \<^verbatim>\<open>applyTurn\<close>, over the cell indices, filling the two arrays
  \<^verbatim>\<open>deathInRound\<close> and \<^verbatim>\<open>bornInRound\<close>.\<close>

fun mark_round ::
  "playBoard \<Rightarrow> nat list \<Rightarrow> bool list \<times> bool list \<Rightarrow> (bool list \<times> bool list) option" where
  "mark_round gameBoard [] marks = Some marks"
| "mark_round gameBoard (i # is) marks =
     (case cell_at (cells gameBoard) i of
        None \<Rightarrow> None
      | Some c \<Rightarrow>
          (case count_neighbours c gameBoard all_directions 0 of
             None \<Rightarrow> None
           | Some livingNeighbours \<Rightarrow>
               mark_round gameBoard is
                 (if isLiving c
                  then (if livingNeighbours < 2 \<or> livingNeighbours > 3
                        then ((fst marks)[i := True], snd marks)
                        else marks)
                  else if livingNeighbours = 3
                  then (fst marks, (snd marks)[i := True])
                  else marks)))"

text \<open>The second loop of \<^verbatim>\<open>applyTurn\<close>, which commits the marks to the board.\<close>

fun commit_round :: "bool list \<Rightarrow> bool list \<Rightarrow> nat list \<Rightarrow> playBoard \<Rightarrow> playBoard option" where
  "commit_round deathInRound bornInRound [] gameBoard = Some gameBoard"
| "commit_round deathInRound bornInRound (i # is) gameBoard =
     (if i < length deathInRound \<and> i < length bornInRound
      then
        (case
           (if deathInRound ! i
            then modify_cell i (\<lambda>c. c\<lparr>isLiving := False, cellChanged := True\<rparr>)
                   (gameBoard\<lparr>livingCells := livingCells gameBoard - 1, isDirty := True\<rparr>)
            else if bornInRound ! i
            then modify_cell i (\<lambda>c. c\<lparr>isLiving := True, cellChanged := True\<rparr>)
                   (gameBoard\<lparr>livingCells := livingCells gameBoard + 1, isDirty := True\<rparr>)
            else modify_cell i (\<lambda>c. c\<lparr>cellChanged := False\<rparr>) gameBoard)
         of None \<Rightarrow> None
          | Some gameBoard' \<Rightarrow> commit_round deathInRound bornInRound is gameBoard')
      else None)"

definition applyTurn :: "playBoard \<Rightarrow> bool \<Rightarrow> playBoard option" where
  "applyTurn gameBoard isInHistory =
     (let b0 = gameBoard\<lparr>isDirty := False\<rparr>;
          n = unat (cellCount gameBoard)
      in case mark_round b0 [0..<n] (replicate n False, replicate n False) of
           None \<Rightarrow> None
         | Some marks \<Rightarrow>
             (case commit_round (fst marks) (snd marks) [0..<n] b0 of
                None \<Rightarrow> None
              | Some b1 \<Rightarrow>
                  Some (if \<not> isInHistory
                        then (if turns b1 + 1 > TURN_LIMIT
                              then b1\<lparr>turns := 0\<rparr>
                              else b1\<lparr>turns := turns b1 + 1\<rparr>)
                        else b1)))"

section \<open>Reset\<close>

fun reset_cells :: "nat list \<Rightarrow> playBoard \<Rightarrow> playBoard option" where
  "reset_cells [] gameBoard = Some gameBoard"
| "reset_cells (i # is) gameBoard =
     (case modify_cell i (\<lambda>c. c\<lparr>isLiving := False, cellChanged := False\<rparr>) gameBoard of
        None \<Rightarrow> None
      | Some gameBoard' \<Rightarrow> reset_cells is gameBoard')"

definition resetPlayboard :: "playBoard \<Rightarrow> playBoard option" where
  "resetPlayboard gameBoard =
     (case reset_cells [0..<unat (cellCount gameBoard)] gameBoard of
        None \<Rightarrow> None
      | Some b \<Rightarrow> Some (b\<lparr>turns := 0, livingCells := 0\<rparr>))"

text \<open>
  C computes on \<^verbatim>\<open>unsigned int\<close> modulo \<open>2^32\<close>. Where a function works on local
  \<^verbatim>\<open>unsigned int\<close> variables, these are natural numbers below \<open>2^32\<close> and every
  arithmetic result goes through \<open>u32\<close>.
\<close>

definition u32 :: "int \<Rightarrow> nat" where
  "u32 i = nat (i mod 4294967296)"

section \<open>Options and messages\<close>

text \<open>
  The fields of \<^verbatim>\<open>struct options\<close> that the functions below read or write. The field
  \<^verbatim>\<open>message\<close> is the array \<^verbatim>\<open>char message[64]\<close>: it holds a text of at most 63 characters
  and the terminating zero.
\<close>

record options =
  hasMessage :: bool
  messageTicks :: int
  message :: string
  maximumFitCellsForRandom :: int
  colorThreshold :: uint

text \<open>
  \<^verbatim>\<open>set_options_message\<close> writes the message with
  \<^verbatim>\<open>sprintf(gameOptions->message, message)\<close>: the text is the format string, and there is
  no further argument. \<open>sprintf_text\<close> is what such a call prints: \<^verbatim>\<open>%%\<close> gives one percent
  sign, and any other conversion reads an argument that was not passed, which C leaves
  undefined. Writing more than 64 bytes, the text and its terminating zero, goes past the
  end of the array and is undefined as well; the fields behind the array are
  \<^verbatim>\<open>maximumFitCellsForRandom\<close>, \<^verbatim>\<open>colorThreshold\<close> and \<^verbatim>\<open>activePanelItem\<close>.
\<close>

fun sprintf_text :: "string \<Rightarrow> string option" where
  "sprintf_text [] = Some []"
| "sprintf_text [c] = (if c = CHR ''%'' then None else Some [c])"
| "sprintf_text (c # d # cs) =
     (if c = CHR ''%''
      then (if d = CHR ''%'' then map_option ((#) c) (sprintf_text cs) else None)
      else map_option ((#) c) (sprintf_text (d # cs)))"

definition set_options_message :: "options \<Rightarrow> string \<Rightarrow> options option" where
  "set_options_message gameOptions msg =
     (case sprintf_text msg of
        None \<Rightarrow> None
      | Some written \<Rightarrow>
          (if length written < 64
           then Some (gameOptions\<lparr>message := written, hasMessage := True, messageTicks := 50\<rparr>)
           else None))"

section \<open>Random board\<close>

text \<open>
  \<^verbatim>\<open>initRandomBoard\<close> starts from
  \<^verbatim>\<open>gameOptions->maximumFitCellsForRandom * (((rand() % 75)+25) * 0.01)\<close>, computed in the
  type \<^verbatim>\<open>double\<close> and converted to \<^verbatim>\<open>unsigned int\<close>. The doubles that occur are finite and
  not negative; \<open>(m, e)\<close> stands for \<open>m * 2^e\<close>. The arithmetic is that of IEEE 754
  binary64 with rounding to nearest, ties to even, every operation rounded to 53
  significant bits (no wider intermediate format), far from overflow and underflow.
\<close>

type_synonym double = "nat \<times> int"

text \<open>The number of binary digits of \<open>n\<close>.\<close>

fun bit_length :: "nat \<Rightarrow> nat" where
  "bit_length n = (if n = 0 then 0 else Suc (bit_length (n div 2)))"

declare bit_length.simps [simp del]

text \<open>
  \<open>n\<close> rounded to 53 significant bits: the result \<open>(q, s)\<close> stands for \<open>q * 2^s\<close>, the
  multiple of \<open>2^s\<close> nearest to \<open>n\<close>, the one with even \<open>q\<close> when \<open>n\<close> lies half way.
\<close>

definition double_round :: "nat \<Rightarrow> nat \<times> nat" where
  "double_round n =
     (if n < 2 ^ 53 then (n, 0)
      else
        (let s = bit_length n - 53; q = n div 2 ^ s; r = n mod 2 ^ s; half = 2 ^ (s - 1)
         in (if r > half \<or> (r = half \<and> odd q) then q + 1 else q, s)))"

text \<open>The conversion of an integer below \<open>2^53\<close>, which is exact; the product of two
  doubles, rounded; the conversion to an integer type, which drops the fraction.\<close>

definition double_of_nat :: "nat \<Rightarrow> double" where
  "double_of_nat n = (n, 0)"

definition double_mult :: "double \<Rightarrow> double \<Rightarrow> double" where
  "double_mult x y =
     (let r = double_round (fst x * fst y) in (fst r, snd x + snd y + int (snd r)))"

definition double_trunc :: "double \<Rightarrow> nat" where
  "double_trunc x =
     (if 0 \<le> snd x then fst x * 2 ^ nat (snd x) else fst x div 2 ^ nat (- snd x))"

text \<open>The constant \<^verbatim>\<open>0.01\<close>: the double nearest to \<open>1/100\<close>, which is
  \<open>5764607523034235 / 2^59\<close>.\<close>

definition DOUBLE_0_01 :: double where
  "DOUBLE_0_01 = (5764607523034235, - 59)"

text \<open>
  The value the local variable \<^verbatim>\<open>maximumFitCellsForRandom\<close> starts with, for the option
  \<open>maxFit\<close> and the result \<open>r\<close> of \<^verbatim>\<open>rand()\<close>. The product has the sign of the option. The
  conversion to \<^verbatim>\<open>unsigned int\<close> is undefined for a value of \<open>-1\<close> or below and for one of
  \<open>2^32\<close> or above; a value between \<open>-1\<close> and \<open>0\<close> becomes \<open>0\<close>.
\<close>

definition cells_to_seed :: "int \<Rightarrow> nat \<Rightarrow> uint option" where
  "cells_to_seed maxFit r =
     (let percent = r mod 75 + 25;
          c = double_trunc (double_mult (double_of_nat (nat \<bar>maxFit\<bar>))
                              (double_mult (double_of_nat percent) DOUBLE_0_01))
      in if maxFit < 0 \<and> 0 < c then None
         else if 2 ^ 32 \<le> c then None
         else Some (word_of_nat c))"

text \<open>
  The \<^verbatim>\<open>while (maximumFitCellsForRandom > 0)\<close> loop of \<^verbatim>\<open>initRandomBoard\<close>. The
  successive results of \<^verbatim>\<open>rand()\<close> are the list \<open>draws\<close>; the loop may go on for ever,
  and the result is \<open>None\<close> when the list is used up before the loop ends.
  \<^verbatim>\<open>rand() % (cellCount - 1)\<close> divides by zero, which is undefined, when \<open>cellCount = 1\<close>.
  The local variable \<^verbatim>\<open>maximumFitCellsForRandom\<close> carries a prime here, the plain name
  being that of the option.
\<close>

fun seed_loop :: "nat list \<Rightarrow> uint \<Rightarrow> playBoard \<Rightarrow> playBoard option" where
  "seed_loop [] maximumFitCellsForRandom' gameBoard =
     (if maximumFitCellsForRandom' > 0 then None else Some gameBoard)"
| "seed_loop (r # rs) maximumFitCellsForRandom' gameBoard =
     (if maximumFitCellsForRandom' > 0
      then
        (if cellCount gameBoard - 1 = 0 then None
         else
           (let i = r mod unat (cellCount gameBoard - 1)
            in case cell_at (cells gameBoard) i of
                 None \<Rightarrow> None
               | Some c \<Rightarrow>
                   (if \<not> isLiving c
                    then
                      (case modify_cell i (\<lambda>c. c\<lparr>isLiving := True, cellChanged := True\<rparr>)
                              (gameBoard\<lparr>livingCells := livingCells gameBoard + 1\<rparr>) of
                         None \<Rightarrow> None
                       | Some gameBoard' \<Rightarrow>
                           seed_loop rs (maximumFitCellsForRandom' - 1) gameBoard')
                    else seed_loop rs maximumFitCellsForRandom' gameBoard)))
      else Some gameBoard)"

text \<open>
  \<^verbatim>\<open>initRandomBoard\<close>: the board is reset, the first result of \<^verbatim>\<open>rand()\<close> scales the
  option, and the following ones feed the loop. The seeding of the generator with
  \<^verbatim>\<open>srand\<close> is outside the model: the draws are arbitrary.
\<close>

definition initRandomBoard :: "nat list \<Rightarrow> playBoard \<Rightarrow> options \<Rightarrow> playBoard option" where
  "initRandomBoard draws gameBoard gameOptions =
     (case resetPlayboard gameBoard of
        None \<Rightarrow> None
      | Some b \<Rightarrow>
          (case draws of
             [] \<Rightarrow> None
           | r # rs \<Rightarrow>
               (case cells_to_seed (maximumFitCellsForRandom gameOptions) r of
                  None \<Rightarrow> None
                | Some k \<Rightarrow> seed_loop rs k b)))"

text \<open>The mouse-button branch of \<^verbatim>\<open>paintCell\<close>, from the computed array index on.\<close>

definition paintCell :: "nat \<Rightarrow> playBoard \<Rightarrow> playBoard" where
  "paintCell i gameBoard =
     (if i < unat (cellCount gameBoard) \<and> i < length (cells gameBoard)
         \<and> \<not> isLiving (cells gameBoard ! i)
      then gameBoard\<lparr>cells := (cells gameBoard)[i := (cells gameBoard ! i)\<lparr>isLiving := True\<rparr>],
                     livingCells := livingCells gameBoard + 1\<rparr>
      else gameBoard)"

text \<open>
  The board as \<^verbatim>\<open>main\<close> sets it up: \<^verbatim>\<open>cellsY = cellsX\<close> always, and the nested loop
  over \<open>y\<close> and \<open>x\<close> writes the cell of grid position \<open>(x, y)\<close> at offset
  \<^verbatim>\<open>x + (y * cellsY)\<close>.
\<close>

definition init_cells :: "nat \<Rightarrow> cell list" where
  "init_cells n =
     concat (map (\<lambda>y. map (\<lambda>x. \<lparr>isLiving = False, cellChanged = False,
                                     cellX = int x, cellY = int y\<rparr>) [0..<n]) [0..<n])"

definition main_board :: "nat \<Rightarrow> playBoard" where
  "main_board n =
     \<lparr>isDirty = True, cellsX = int n, cellsY = int n, cellCount = word_of_nat (n * n),
      livingCells = 0, turns = 0, cells = init_cells n\<rparr>"

text \<open>
  The boards \<^verbatim>\<open>main\<close> can build: square, with as many cells as \<open>cellCount\<close> says, the
  cell at offset \<open>x + y * cellsY\<close> carrying the grid position \<open>(x, y)\<close>.
\<close>

definition wf_board :: "playBoard \<Rightarrow> bool" where
  "wf_board gameBoard \<longleftrightarrow>
     1 \<le> cellsX gameBoard \<and> cellsY gameBoard = cellsX gameBoard
     \<and> unat (cellCount gameBoard) = length (cells gameBoard)
     \<and> int (length (cells gameBoard)) = cellsX gameBoard * cellsY gameBoard
     \<and> list_all (\<lambda>i. cellX (cells gameBoard ! i) = int i mod cellsX gameBoard
                     \<and> cellY (cells gameBoard ! i) = int i div cellsX gameBoard)
           [0..<length (cells gameBoard)]"

text \<open>The number of cells whose \<^verbatim>\<open>isLiving\<close> flag is set.\<close>

definition living_count :: "cell list \<Rightarrow> nat" where
  "living_count cs = length (filter isLiving cs)"

section \<open>Image ingestion\<close>

text \<open>
  The decoded image, as far as \<^verbatim>\<open>generateCellMapFromImage\<close> reads the \<^verbatim>\<open>SDL_Surface\<close>:
  the pixel format, the width \<^verbatim>\<open>w\<close>, the height \<^verbatim>\<open>h\<close> and the pixels as 32-bit values.
  Opening and decoding the file happen before and are not modelled.
\<close>

record SDL_PixelFormat =
  BitsPerPixel :: nat
  Rmask :: uint
  Gmask :: uint
  Bmask :: uint
  Rshift :: nat
  Gshift :: nat
  Bshift :: nat
  Rloss :: nat
  Gloss :: nat
  Bloss :: nat

record SDL_Surface =
  format :: SDL_PixelFormat
  surface_w :: nat
  surface_h :: nat
  pixels :: "uint list"

text \<open>One colour channel of a pixel: \<^verbatim>\<open>((pixel & mask) >> shift) << loss\<close>, on 32 bits.
  The shift counts of a pixel format are below 32; for larger ones C leaves the result
  undefined, and the value here is 0.\<close>

definition channel :: "uint \<Rightarrow> uint \<Rightarrow> nat \<Rightarrow> nat \<Rightarrow> nat" where
  "channel pixel chmask chshift chloss =
     unat (push_bit chloss (drop_bit chshift (pixel AND chmask)))"

text \<open>The inner loop over \<open>i\<close> (image rows) for one column \<open>j\<close>; the state is
  \<open>(rValue, gValue, bValue)\<close>.\<close>

fun read_rows ::
  "SDL_Surface \<Rightarrow> nat \<Rightarrow> nat list \<Rightarrow> nat \<times> nat \<times> nat \<Rightarrow> (nat \<times> nat \<times> nat) option" where
  "read_rows imageSurface j [] rgb = Some rgb"
| "read_rows imageSurface j (i # is) rgb =
     (let tempOffset = u32 (int j + int i * int (surface_w imageSurface) - int i)
      in if tempOffset < length (pixels imageSurface)
         then
           (let p = pixels imageSurface ! tempOffset;
                f = format imageSurface;
                rValue = u32 (int (fst rgb) + int (channel p (Rmask f) (Rshift f) (Rloss f)));
                gValue = u32 (int (fst (snd rgb)) + int (channel p (Gmask f) (Gshift f) (Gloss f)));
                bValue = u32 (int (snd (snd rgb)) + int (channel p (Bmask f) (Bshift f) (Bloss f)))
            in read_rows imageSurface j is (rValue, gValue, bValue))
         else None)"

text \<open>The outer loop over \<open>j\<close> (image columns).\<close>

fun read_columns ::
  "SDL_Surface \<Rightarrow> nat list \<Rightarrow> nat list \<Rightarrow> nat \<times> nat \<times> nat \<Rightarrow> (nat \<times> nat \<times> nat) option" where
  "read_columns imageSurface [] is rgb = Some rgb"
| "read_columns imageSurface (j # js) is rgb =
     (case read_rows imageSurface j is rgb of
        None \<Rightarrow> None
      | Some rgb' \<Rightarrow> read_columns imageSurface js is rgb')"

text \<open>
  One pass through the body of the \<^verbatim>\<open>while (true)\<close> loop. The state is
  \<open>(workingX, workingY, row, index, gameBoard)\<close>; the result is \<open>Inr\<close> of the board at a
  \<^verbatim>\<open>break\<close>, \<open>Inl\<close> of the next state otherwise, and \<open>None\<close> at an access outside an
  array or a division by zero.
\<close>

type_synonym ingest_state = "nat \<times> nat \<times> int \<times> nat \<times> playBoard"

definition ingest_step ::
  "SDL_Surface \<Rightarrow> options \<Rightarrow> nat \<Rightarrow> nat \<Rightarrow> ingest_state \<Rightarrow> (ingest_state + playBoard) option" where
  "ingest_step imageSurface gameOptions xPixelPerCell yPixelPerCell st =
     (let workingX0 = fst st; workingY0 = fst (snd st); row0 = fst (snd (snd st));
          index0 = fst (snd (snd (snd st))); gameBoard = snd (snd (snd (snd st)));
          limitX = surface_w imageSurface; limitY = surface_h imageSurface;
          totalPixelPerCell = u32 (int xPixelPerCell * int yPixelPerCell);
          workingX1 = u32 (int workingX0 + int xPixelPerCell);
          over = (workingX1 > limitX);
          workingX = (if over then xPixelPerCell else workingX1);
          workingY = (if over then u32 (int workingY0 + int yPixelPerCell) else workingY0);
          row = (if over then row0 + 1 else row0);
          index = (if over then u32 (row * cellsX gameBoard - row) else index0)
      in if over \<and> workingY > limitY then Some (Inr gameBoard)
         else
           (case read_columns imageSurface
                   [u32 (int workingX - int xPixelPerCell)..<workingX]
                   [u32 (int workingY - int yPixelPerCell)..<workingY] (0, 0, 0) of
              None \<Rightarrow> None
            | Some rgb \<Rightarrow>
                (if totalPixelPerCell = 0 then None
                 else
                   (let rAverage = fst rgb div totalPixelPerCell;
                        gAverage = fst (snd rgb) div totalPixelPerCell;
                        bAverage = snd (snd rgb) div totalPixelPerCell
                    in case
                         (if u32 (int rAverage + int gAverage + int bAverage)
                               \<le> unat (colorThreshold gameOptions)
                          then modify_cell index (\<lambda>c. c\<lparr>isLiving := True, cellChanged := True\<rparr>)
                                 (gameBoard\<lparr>livingCells := livingCells gameBoard + 1\<rparr>)
                          else Some gameBoard)
                       of None \<Rightarrow> None
                        | Some gameBoard' \<Rightarrow>
                            (if u32 (int index + 1) \<ge> unat (cellCount gameBoard' - 1)
                             then Some (Inr gameBoard')
                             else Some (Inl (workingX, workingY, row, u32 (int index + 1),
                                             gameBoard')))))))"

partial_function (option) ingest_loop ::
  "SDL_Surface \<Rightarrow> options \<Rightarrow> nat \<Rightarrow> nat \<Rightarrow> ingest_state \<Rightarrow> playBoard option" where
  "ingest_loop imageSurface gameOptions xPixelPerCell yPixelPerCell st =
     (case ingest_step imageSurface gameOptions xPixelPerCell yPixelPerCell st of
        None \<Rightarrow> None
      | Some (Inr gameBoard) \<Rightarrow> Some gameBoard
      | Some (Inl st') \<Rightarrow> ingest_loop imageSurface gameOptions xPixelPerCell yPixelPerCell st')"

declare ingest_loop.simps [code]

text \<open>
  \<^verbatim>\<open>generateCellMapFromImage\<close> from the loaded surface on. The two ratios are computed as
  \<^verbatim>\<open>floor((double) imgWidth / gameBoard->cellsX)\<close>; for a positive divisor and operands
  below \<open>2^32\<close> that is the integer quotient (the rounding error of the double quotient
  is too small to reach the next integer). With a divisor that is not positive the
  conversion of the result to \<^verbatim>\<open>unsigned int\<close> is undefined. Each of the two failures sets
  its message with \<^verbatim>\<open>set_options_message\<close> and returns \<^verbatim>\<open>false\<close>.
\<close>

definition generateCellMapFromImage ::
  "SDL_Surface \<Rightarrow> playBoard \<Rightarrow> options \<Rightarrow> (bool \<times> playBoard \<times> options) option" where
  "generateCellMapFromImage imageSurface gameBoard gameOptions =
     (if BitsPerPixel (format imageSurface) < 32
      then
        (case set_options_message gameOptions ''Only 32 bit png images are supported.'' of
           None \<Rightarrow> None
         | Some gameOptions' \<Rightarrow> Some (False, gameBoard, gameOptions'))
      else if cellsX gameBoard \<le> 0 \<or> cellsY gameBoard \<le> 0 then None
      else
        (let imgWidth = surface_w imageSurface; imgHeight = surface_h imageSurface;
             xPixelPerCell = imgWidth div nat (cellsX gameBoard);
             yPixelPerCell = imgHeight div nat (cellsY gameBoard)
         in if xPixelPerCell < 1 \<or> yPixelPerCell < 1
            then
              (case set_options_message gameOptions
                      ''Image pixel size should be bigger then x and y count of the conway cells.'' of
                 None \<Rightarrow> None
               | Some gameOptions' \<Rightarrow> Some (False, gameBoard, gameOptions'))
            else
              (case resetPlayboard gameBoard of
                 None \<Rightarrow> None
               | Some b0 \<Rightarrow>
                   (case ingest_loop imageSurface gameOptions xPixelPerCell yPixelPerCell
                           (0, yPixelPerCell, 0, 0, b0) of
                      None \<Rightarrow> None
                    | Some b1 \<Rightarrow> Some (True, b1, gameOptions)))))"

section \<open>History\<close>

datatype INFOPANELSTATES = DISABLED | STABLE | DEAD | BORN

text \<open>The field \<^verbatim>\<open>turn\<close> of \<^verbatim>\<open>gameHistoryTurn\<close> is never written or read and is left
  out. The field \<^verbatim>\<open>turns\<close> of \<^verbatim>\<open>gameHistoryGame\<close> is \<open>history_turns\<close>, the name \<open>turns\<close>
  being taken by the board. The array \<^verbatim>\<open>turnData\<close> is a list, empty for \<^verbatim>\<open>NULL\<close>.\<close>

record gameHistoryTurn =
  records :: uint
  countBorn :: uint
  countDeath :: uint
  countStable :: uint
  state :: "INFOPANELSTATES list"
  index :: "uint list"

record gameHistoryGame =
  history_turns :: uint
  currentTurn :: uint
  turnData :: "gameHistoryTurn list"

definition clearHistory :: "gameHistoryGame \<Rightarrow> bool \<times> gameHistoryGame" where
  "clearHistory gameHistory =
     (if turnData gameHistory = [] then (False, gameHistory)
      else (True, gameHistory\<lparr>turnData := [], history_turns := 0, currentTurn := 0\<rparr>))"

text \<open>The loop of \<^verbatim>\<open>addHistory\<close> over the cells. Each \<^verbatim>\<open>realloc\<close> grows the two arrays
  of the turn by one element, which is then written: an append.\<close>

fun record_cells :: "playBoard \<Rightarrow> nat list \<Rightarrow> gameHistoryTurn \<Rightarrow> gameHistoryTurn option" where
  "record_cells gameBoard [] t = Some t"
| "record_cells gameBoard (i # is) t =
     (case cell_at (cells gameBoard) i of
        None \<Rightarrow> None
      | Some c \<Rightarrow>
          record_cells gameBoard is
            (if cellChanged c
             then
               (let t1 = t\<lparr>index := index t @ [word_of_int (cellX c + cellY c * cellsX gameBoard)]\<rparr>;
                    t2 = (if isLiving c
                          then t1\<lparr>countBorn := countBorn t1 + 1, state := state t1 @ [BORN]\<rparr>
                          else t1\<lparr>countDeath := countDeath t1 + 1, state := state t1 @ [DEAD]\<rparr>)
                in t2\<lparr>records := records t2 + 1\<rparr>)
             else if isLiving c
             then t\<lparr>state := state t @ [STABLE],
                    index := index t @ [word_of_int (cellX c + cellY c * cellsX gameBoard)],
                    countStable := countStable t + 1,
                    records := records t + 1\<rparr>
             else t))"

text \<open>\<^verbatim>\<open>addHistory\<close>. The \<^verbatim>\<open>realloc\<close> of \<^verbatim>\<open>turnData\<close> to \<open>turns + 1\<close> elements keeps the
  first \<open>turns\<close> of them; the new turn is written into the last one. Allocation is
  taken to succeed.\<close>

definition addHistory :: "gameHistoryGame \<Rightarrow> playBoard \<Rightarrow> (bool \<times> gameHistoryGame) option" where
  "addHistory gameHistory gameBoard =
     (if history_turns gameHistory > turns gameBoard then Some (False, gameHistory)
      else
        (let h1 = (if history_turns gameHistory = TURN_LIMIT
                   then snd (clearHistory gameHistory) else gameHistory);
             fresh = \<lparr>records = 0, countBorn = 0, countDeath = 0, countStable = 0,
                      state = [], index = []\<rparr>
         in case record_cells gameBoard [0..<unat (cellCount gameBoard)] fresh of
              None \<Rightarrow> None
            | Some t \<Rightarrow>
                Some (True,
                      h1\<lparr>turnData := take (unat (history_turns h1)) (turnData h1) @ [t],
                         currentTurn := history_turns h1,
                         history_turns := history_turns h1 + 1\<rparr>)))"

text \<open>The second loop of \<^verbatim>\<open>historyDisplayTurn\<close>, over the entries of the turn.\<close>

fun replay_records :: "gameHistoryTurn \<Rightarrow> nat list \<Rightarrow> playBoard \<Rightarrow> playBoard option" where
  "replay_records t [] gameBoard = Some gameBoard"
| "replay_records t (i # is) gameBoard =
     (if i < length (index t) \<and> i < length (state t)
      then
        (case
           (case state t ! i of
              STABLE \<Rightarrow>
                modify_cell (unat (index t ! i))
                  (\<lambda>c. c\<lparr>isLiving := True, cellChanged := False\<rparr>) gameBoard
            | DEAD \<Rightarrow>
                modify_cell (unat (index t ! i))
                  (\<lambda>c. c\<lparr>isLiving := False, cellChanged := True\<rparr>) gameBoard
            | BORN \<Rightarrow>
                modify_cell (unat (index t ! i))
                  (\<lambda>c. c\<lparr>isLiving := True, cellChanged := True\<rparr>) gameBoard
            | DISABLED \<Rightarrow> Some gameBoard)
         of None \<Rightarrow> None
          | Some gameBoard' \<Rightarrow> replay_records t is gameBoard')
      else None)"

definition historyDisplayTurn :: "gameHistoryGame \<Rightarrow> playBoard \<Rightarrow> (bool \<times> playBoard) option" where
  "historyDisplayTurn gameHistory gameBoard =
     (case reset_cells [0..<unat (cellCount gameBoard)] gameBoard of
        None \<Rightarrow> None
      | Some b0 \<Rightarrow>
          (if unat (currentTurn gameHistory) < length (turnData gameHistory)
           then
             (let t = turnData gameHistory ! unat (currentTurn gameHistory)
              in case replay_records t [0..<unat (records t)] b0 of
                   None \<Rightarrow> None
                 | Some b1 \<Rightarrow> Some (True, b1))
           else None))"

definition historyBackwards ::
  "gameHistoryGame \<Rightarrow> playBoard \<Rightarrow> (bool \<times> gameHistoryGame \<times> playBoard) option" where
  "historyBackwards gameHistory gameBoard =
     (if currentTurn gameHistory = 0 \<or> history_turns gameHistory = 0
      then Some (False, gameHistory, gameBoard)
      else
        (let h = gameHistory\<lparr>currentTurn := currentTurn gameHistory - 1\<rparr>
         in case historyDisplayTurn h gameBoard of
              None \<Rightarrow> None
            | Some r \<Rightarrow> Some (fst r, h, snd r)))"

definition historyForwards ::
  "gameHistoryGame \<Rightarrow> playBoard \<Rightarrow> (bool \<times> gameHistoryGame \<times> playBoard) option" where
  "historyForwards gameHistory gameBoard =
     (if currentTurn gameHistory = turns gameBoard \<or> history_turns gameHistory = 0
         \<or> currentTurn gameHistory = history_turns gameHistory - 1
      then Some (False, gameHistory, gameBoard)
      else
        (let h = gameHistory\<lparr>currentTurn := currentTurn gameHistory + 1\<rparr>
         in case historyDisplayTurn h gameBoard of
              None \<Rightarrow> None
            | Some r \<Rightarrow> Some (fst r, h, snd r)))"

text \<open>The history as \<^verbatim>\<open>main\<close> declares it: \<^verbatim>\<open>{0, 0, NULL}\<close>.\<close>

definition empty_history :: gameHistoryGame where
  "empty_history = \<lparr>history_turns = 0, currentTurn = 0, turnData = []\<rparr>"

section \<open>The rules, stated on grid positions\<close>

text \<open>
  The counterpart of the neighbour count that the claims speak of, written from the
  rule and not from the code: on the \<open>n \<times> n\<close> torus the cell at offset \<open>i\<close> sits at
  \<open>(i mod n, i div n)\<close>, and its eight neighbours are the positions shifted by
  \<open>-1, 0, 1\<close> in each coordinate, modulo \<open>n\<close>.
\<close>

definition torus_shifts :: "(int \<times> int) list" where
  "torus_shifts = [(0, -1), (1, -1), (1, 0), (1, 1), (0, 1), (-1, 1), (-1, 0), (-1, -1)]"

definition alive_at :: "playBoard \<Rightarrow> int \<Rightarrow> int \<Rightarrow> bool" where
  "alive_at gameBoard x y =
     isLiving (cells gameBoard ! nat (x mod cellsX gameBoard
                                      + (y mod cellsX gameBoard) * cellsX gameBoard))"

definition spec_living_neighbours :: "playBoard \<Rightarrow> nat \<Rightarrow> nat" where
  "spec_living_neighbours gameBoard i =
     (let x = int i mod cellsX gameBoard; y = int i div cellsX gameBoard
      in length (filter (\<lambda>d. alive_at gameBoard (x + fst d) (y + snd d)) torus_shifts))"

text \<open>The marks of the first loop of \<^verbatim>\<open>applyTurn\<close> in terms of that count, and what the
  second loop does to one cell with given marks.\<close>

definition committed :: "bool \<Rightarrow> bool \<Rightarrow> cell \<Rightarrow> cell" where
  "committed d bn c =
     (if d then c\<lparr>isLiving := False, cellChanged := True\<rparr>
      else if bn then c\<lparr>isLiving := True, cellChanged := True\<rparr>
      else c\<lparr>cellChanged := False\<rparr>)"

definition will_die :: "playBoard \<Rightarrow> nat \<Rightarrow> bool" where
  "will_die b i \<longleftrightarrow>
     isLiving (cells b ! i) \<and> (spec_living_neighbours b i < 2 \<or> spec_living_neighbours b i > 3)"

definition will_be_born :: "playBoard \<Rightarrow> nat \<Rightarrow> bool" where
  "will_be_born b i \<longleftrightarrow> \<not> isLiving (cells b ! i) \<and> spec_living_neighbours b i = 3"

text \<open>
  The rule of the ingestion as the specification words it, for comparison with the code:
  the cell at grid position \<open>(x, y)\<close> is alive exactly if the three channel averages over
  the block of \<open>xp\<close> by \<open>yp\<close> pixels at \<open>(x * xp, y * yp)\<close>, the pixel \<open>(px, py)\<close> being
  at offset \<open>px + py * w\<close>, add up to at most the threshold.
\<close>

definition spec_block_sum :: "SDL_Surface \<Rightarrow> (uint \<Rightarrow> nat) \<Rightarrow> nat \<Rightarrow> nat \<Rightarrow> nat \<Rightarrow> nat \<Rightarrow> nat" where
  "spec_block_sum imageSurface chan xp yp x y =
     sum_list (map (\<lambda>py. sum_list (map (\<lambda>px. chan (pixels imageSurface
                                                      ! (px + py * surface_w imageSurface)))
                                       [x * xp..<x * xp + xp]))
                   [y * yp..<y * yp + yp])"

definition spec_cell_alive :: "SDL_Surface \<Rightarrow> options \<Rightarrow> nat \<Rightarrow> nat \<Rightarrow> nat \<Rightarrow> nat \<Rightarrow> bool" where
  "spec_cell_alive imageSurface gameOptions xp yp x y \<longleftrightarrow>
     (let f = format imageSurface;
          r = spec_block_sum imageSurface (\<lambda>p. channel p (Rmask f) (Rshift f) (Rloss f)) xp yp x y;
          g = spec_block_sum imageSurface (\<lambda>p. channel p (Gmask f) (Gshift f) (Gloss f)) xp yp x y;
          b = spec_block_sum imageSurface (\<lambda>p. channel p (Bmask f) (Bshift f) (Bloss f)) xp yp x y
      in r div (xp * yp) + g div (xp * yp) + b div (xp * yp) \<le> unat (colorThreshold gameOptions))"

section \<open>Boards, images and scenarios of the examples\<close>

text \<open>A board for the examples: the 5 by 5 board of \<^verbatim>\<open>main\<close> with the three cells
  \<open>(0, 1)\<close>, \<open>(1, 1)\<close>, \<open>(2, 1)\<close> painted alive, a horizontal blinker.\<close>

definition blinker_board :: playBoard where
  "blinker_board = paintCell 7 (paintCell 6 (paintCell 5 (main_board 5)))"

text \<open>A board with two living cells that are not neighbours: \<open>(0, 0)\<close> and \<open>(2, 2)\<close>.\<close>

definition two_cells_board :: playBoard where
  "two_cells_board = paintCell 12 (paintCell 0 (main_board 5))"

text \<open>A board with a block of four cells, \<open>(0, 0)\<close>, \<open>(1, 0)\<close>, \<open>(0, 1)\<close>, \<open>(1, 1)\<close>, which
  stays as it is, and the single cell \<open>(3, 3)\<close>, which dies in the first turn.\<close>

definition block_and_cell_board :: playBoard where
  "block_and_cell_board =
     paintCell 18 (paintCell 6 (paintCell 5 (paintCell 1 (paintCell 0 (main_board 5)))))"

text \<open>Fixtures for the examples: the pixel format of a 32-bit RGBA surface, a 5 by 5
  surface of opaque black pixels, and the options \<^verbatim>\<open>main\<close> starts with (the default
  colour threshold is \<open>765 * 0.85\<close>, truncated).\<close>

definition rgba_format :: SDL_PixelFormat where
  "rgba_format = \<lparr>BitsPerPixel = 32, Rmask = 0xFF, Gmask = 0xFF00, Bmask = 0xFF0000,
                   Rshift = 0, Gshift = 8, Bshift = 16, Rloss = 0, Gloss = 0, Bloss = 0\<rparr>"

definition black_image :: SDL_Surface where
  "black_image = \<lparr>format = rgba_format, surface_w = 5, surface_h = 5,
                   pixels = replicate 25 0xFF000000\<rparr>"

definition default_options :: options where
  "default_options = \<lparr>hasMessage = False, messageTicks = 50, message = [],
                       maximumFitCellsForRandom = 10, colorThreshold = 650\<rparr>"

text \<open>Two more surfaces: one of 4 by 4 opaque black pixels, smaller than the smallest
  board, and the black image declared with 24 bits per pixel.\<close>

definition small_image :: SDL_Surface where
  "small_image = \<lparr>format = rgba_format, surface_w = 4, surface_h = 4,
                   pixels = replicate 16 0xFF000000\<rparr>"

definition rgb_image :: SDL_Surface where
  "rgb_image = black_image\<lparr>format := rgba_format\<lparr>BitsPerPixel := 24\<rparr>\<rparr>"

text \<open>Two calls of \<^verbatim>\<open>addHistory\<close> on the same board, with no turn in between.\<close>

definition record_twice ::
  "gameHistoryGame \<Rightarrow> playBoard \<Rightarrow> (bool \<times> bool \<times> gameHistoryGame \<times> gameHistoryGame) option" where
  "record_twice gameHistory gameBoard =
     (case addHistory gameHistory gameBoard of
        None \<Rightarrow> None
      | Some r1 \<Rightarrow>
          (case addHistory (snd r1) gameBoard of
             None \<Rightarrow> None
           | Some r2 \<Rightarrow> Some (fst r1, fst r2, snd r1, snd r2)))"

text \<open>One live turn without history, then two calls of \<^verbatim>\<open>addHistory\<close> in a row, the
  history being the empty one: what happens when recording is switched on later.\<close>

definition late_record_twice ::
  "playBoard \<Rightarrow> (bool \<times> bool \<times> gameHistoryGame \<times> gameHistoryGame) option" where
  "late_record_twice gameBoard =
     (case applyTurn gameBoard False of
        None \<Rightarrow> None
      | Some b \<Rightarrow> record_twice empty_history b)"

text \<open>One live turn followed by \<^verbatim>\<open>addHistory\<close>, as the main loop does while recording. The
  flag that \<^verbatim>\<open>addHistory\<close> returns is dropped here: on failure the history is unchanged.\<close>

definition record_turn :: "gameHistoryGame \<times> playBoard \<Rightarrow> (gameHistoryGame \<times> playBoard) option" where
  "record_turn hb =
     (case applyTurn (snd hb) False of
        None \<Rightarrow> None
      | Some b' \<Rightarrow>
          (case addHistory (fst hb) b' of
             None \<Rightarrow> None
           | Some r \<Rightarrow> Some (snd r, b')))"

text \<open>The scenarios of the history claims: \<open>n\<close> live turns, \<open>n\<close> recorded turns
  (\<^verbatim>\<open>addHistory\<close> after each \<^verbatim>\<open>applyTurn\<close>), and \<open>n\<close> calls of \<^verbatim>\<open>historyBackwards\<close> or of
  \<^verbatim>\<open>historyForwards\<close>, whose result flag is dropped (a failed call changes nothing).\<close>

fun live_turns :: "nat \<Rightarrow> playBoard \<Rightarrow> playBoard option" where
  "live_turns 0 gameBoard = Some gameBoard"
| "live_turns (Suc n) gameBoard =
     (case applyTurn gameBoard False of
        None \<Rightarrow> None
      | Some b \<Rightarrow> live_turns n b)"

fun record_turns ::
  "nat \<Rightarrow> gameHistoryGame \<times> playBoard \<Rightarrow> (gameHistoryGame \<times> playBoard) option" where
  "record_turns 0 hb = Some hb"
| "record_turns (Suc n) hb =
     (case record_turn hb of
        None \<Rightarrow> None
      | Some hb' \<Rightarrow> record_turns n hb')"

fun navigate_backward ::
  "nat \<Rightarrow> gameHistoryGame \<times> playBoard \<Rightarrow> (gameHistoryGame \<times> playBoard) option" where
  "navigate_backward 0 hb = Some hb"
| "navigate_backward (Suc n) hb =
     (case historyBackwards (fst hb) (snd hb) of
        None \<Rightarrow> None
      | Some r \<Rightarrow> navigate_backward n (snd r))"

fun navigate_forward ::
  "nat \<Rightarrow> gameHistoryGame \<times> playBoard \<Rightarrow> (gameHistoryGame \<times> playBoard) option" where
  "navigate_forward 0 hb = Some hb"
| "navigate_forward (Suc n) hb =
     (case historyForwards (fst hb) (snd hb) of
        None \<Rightarrow> None
      | Some r \<Rightarrow> navigate_forward n (snd r))"

text \<open>The round trip of the history claim on one board: \<open>n\<close> recorded turns from the empty
  history, \<open>n\<close> steps back, \<open>n\<close> steps forward. The result is the live board after the
  recorded turns and the board after the navigation.\<close>

definition round_trip :: "nat \<Rightarrow> playBoard \<Rightarrow> (playBoard \<times> playBoard) option" where
  "round_trip n gameBoard =
     (case record_turns n (empty_history, gameBoard) of
        None \<Rightarrow> None
      | Some hb1 \<Rightarrow>
          (case navigate_backward n hb1 of
             None \<Rightarrow> None
           | Some hb2 \<Rightarrow>
               (case navigate_forward n hb2 of
                  None \<Rightarrow> None
                | Some hb3 \<Rightarrow> Some (snd hb1, snd hb3))))"

text \<open>The main loop with recording on, then one step back: the board is recorded, one
  turn is played and recorded, and \<^verbatim>\<open>historyBackwards\<close> is called.\<close>

definition replay_scenario ::
  "playBoard \<Rightarrow> (bool \<times> gameHistoryGame \<times> playBoard) option" where
  "replay_scenario gameBoard =
     (case addHistory empty_history gameBoard of
        None \<Rightarrow> None
      | Some r0 \<Rightarrow>
          (case record_turn (snd r0, gameBoard) of
             None \<Rightarrow> None
           | Some hb \<Rightarrow> historyBackwards (fst hb) (snd hb)))"

text \<open>
  The same, and then recording is switched off and one more live turn is played from the
  board that is shown. Switching off during the replay is the branch of \<^verbatim>\<open>main\<close> for the
  key \<^verbatim>\<open>h\<close>: it sets \<^verbatim>\<open>turns\<close> back with
  \<^verbatim>\<open>gameBoard.turns -= ((gameHistory.turns - 1) - gameHistory.currentTurn)\<close>, clears the
  history and leaves the rest of the board as it is. The main loop then calls \<^verbatim>\<open>applyTurn\<close>
  at its next tick, provided \<^verbatim>\<open>livingCells\<close> is not zero.
\<close>

definition resume_scenario :: "playBoard \<Rightarrow> playBoard option" where
  "resume_scenario gameBoard =
     (case replay_scenario gameBoard of
        None \<Rightarrow> None
      | Some r \<Rightarrow>
          (let gameHistory = fst (snd r); b = snd (snd r)
           in applyTurn
                (b\<lparr>turns := turns b - ((history_turns gameHistory - 1) - currentTurn gameHistory)\<rparr>)
                False))"

section \<open>Notions of the proofs\<close>

text \<open>The invariant of the ingestion loop: the index to be written stays below the last
  cell, which stays dead. The index is tied to the row and to the number of blocks done
  in the row, of which there are at least \<open>cellsX\<close> before the row ends.\<close>

definition ingest_inv :: "SDL_Surface \<Rightarrow> nat \<Rightarrow> uint \<Rightarrow> int \<Rightarrow> ingest_state \<Rightarrow> bool" where
  "ingest_inv s xp cc cx st \<longleftrightarrow>
     (let wx = fst st; row = fst (snd (snd st)); idx = fst (snd (snd (snd st)));
          b = snd (snd (snd (snd st)))
      in cellCount b = cc \<and> cellsX b = cx \<and> length (cells b) = unat cc
         \<and> idx < unat (cc - 1) \<and> \<not> isLiving (cells b ! (unat cc - 1))
         \<and> 0 \<le> row \<and> int idx = row * (cx - 1) + int (wx div xp)
         \<and> xp dvd wx \<and> wx \<le> surface_w s)"

text \<open>The cells that \<^verbatim>\<open>addHistory\<close> writes an entry for, and the state it gives them.\<close>

definition interesting :: "cell \<Rightarrow> bool" where
  "interesting c \<longleftrightarrow> cellChanged c \<or> isLiving c"

definition cell_status :: "cell \<Rightarrow> INFOPANELSTATES" where
  "cell_status c = (if cellChanged c then (if isLiving c then BORN else DEAD) else STABLE)"

text \<open>The two flags of a cell overwritten by those of another cell: what replaying an
  entry does to the cell it names.\<close>

definition with_flags :: "cell \<Rightarrow> cell \<Rightarrow> cell" where
  "with_flags src c = c\<lparr>isLiving := isLiving src, cellChanged := cellChanged src\<rparr>"

text \<open>A recorded turn \<open>t\<close> describes the board \<open>bk\<close>: every entry names a cell of \<open>bk\<close>
  that is changed or alive and carries its state, and every such cell has an entry.\<close>

definition represents :: "gameHistoryTurn \<Rightarrow> playBoard \<Rightarrow> bool" where
  "represents t bk \<longleftrightarrow>
     length (state t) = length (index t) \<and> unat (records t) = length (index t)
     \<and> list_all (\<lambda>p. unat (index t ! p) < length (cells bk)
                     \<and> interesting (cells bk ! unat (index t ! p))
                     \<and> state t ! p = cell_status (cells bk ! unat (index t ! p)))
          [0..<length (index t)]
     \<and> list_all (\<lambda>j. interesting (cells bk ! j) \<longrightarrow> j \<in> unat ` set (index t))
          [0..<length (cells bk)]"

text \<open>The history holds one turn for each board of the list \<open>L\<close>, in order.\<close>

definition ledger_of :: "playBoard list \<Rightarrow> gameHistoryGame \<Rightarrow> bool" where
  "ledger_of L h \<longleftrightarrow>
     length (turnData h) = length L \<and> history_turns h = word_of_nat (length L)
     \<and> length L < 2 ^ 32
     \<and> list_all (\<lambda>k. represents (turnData h ! k) (L ! k)) [0..<length L]"

text \<open>Two boards of the same size agree on both flags of every cell.\<close>

definition same_flags :: "playBoard \<Rightarrow> playBoard \<Rightarrow> bool" where
  "same_flags b bk \<longleftrightarrow>
     length (cells b) = length (cells bk)
     \<and> list_all (\<lambda>j. isLiving (cells b ! j) = isLiving (cells bk ! j)
                     \<and> cellChanged (cells b ! j) = cellChanged (cells bk ! j))
          [0..<length (cells b)]"

text \<open>The board shows the turn the cursor of the history points to.\<close>

definition shows_turn :: "playBoard list \<Rightarrow> gameHistoryGame \<Rightarrow> playBoard \<Rightarrow> bool" where
  "shows_turn L h b \<longleftrightarrow>
     unat (currentTurn h) < length L \<and> unat (cellCount b) = length (cells b)
     \<and> length L \<le> unat (turns b)
     \<and> list_all (\<lambda>bk. length (cells bk) = length (cells b)) L
     \<and> same_flags b (L ! unat (currentTurn h))"

section \<open>Properties\<close>

subsection \<open>Well-formed boards and the neighbour lookup\<close>

lemmas DIRECTIONS_defs =
  TOP_def TOP_RIGHT_def RIGHT_def BOTTOM_RIGHT_def BOTTOM_def BOTTOM_LEFT_def LEFT_def
  TOP_LEFT_def

lemma wf_board_cell:
  assumes "wf_board b" and "i < length (cells b)"
  shows "cellX (cells b ! i) = int i mod cellsX b" and "cellY (cells b ! i) = int i div cellsX b"
  using assms by (simp_all add: wf_board_def list_all_iff)

lemma wf_board_size:
  assumes "wf_board b"
  shows "1 \<le> cellsX b" and "cellsY b = cellsX b" and "unat (cellCount b) = length (cells b)"
    and "int (length (cells b)) = cellsX b * cellsX b" and "0 < length (cells b)"
proof -
  show a: "1 \<le> cellsX b" and b: "cellsY b = cellsX b" and "unat (cellCount b) = length (cells b)"
    using assms by (simp_all add: wf_board_def)
  show c: "int (length (cells b)) = cellsX b * cellsX b"
    using assms by (simp add: wf_board_def)
  have "0 < cellsX b * cellsX b" using a by simp
  with c show "0 < length (cells b)" by linarith
qed

lemma int_div_less_square:
  fixes a n :: int
  assumes "a < n * n" and "1 \<le> n"
  shows "a div n < n"
proof (rule ccontr)
  assume "\<not> a div n < n"
  then have "n \<le> a div n" by simp
  then have "n * n \<le> n * (a div n)" using assms(2) by (intro mult_left_mono) auto
  moreover have "a = n * (a div n) + a mod n" by simp
  moreover have "0 \<le> a mod n" using assms(2) by simp
  ultimately show False using assms(1) by linarith
qed

lemma wf_board_coords_range:
  assumes "wf_board b" and "i < length (cells b)"
  shows "0 \<le> cellX (cells b ! i)" and "cellX (cells b ! i) < cellsX b"
    and "0 \<le> cellY (cells b ! i)" and "cellY (cells b ! i) < cellsX b"
proof -
  have n: "1 \<le> cellsX b" and len: "int (length (cells b)) = cellsX b * cellsX b"
    using wf_board_size[OF assms(1)] by simp_all
  show "0 \<le> cellX (cells b ! i)" "cellX (cells b ! i) < cellsX b"
    using wf_board_cell(1)[OF assms] n by simp_all
  show "0 \<le> cellY (cells b ! i)"
    using wf_board_cell(2)[OF assms] n by (simp add: pos_imp_zdiv_nonneg_iff)
  have "int i < cellsX b * cellsX b" using assms(2) len by linarith
  then have "int i div cellsX b < cellsX b"
    using n int_div_less_square by simp
  then show "cellY (cells b ! i) < cellsX b"
    using wf_board_cell(2)[OF assms] by simp
qed

lemma grid_offset_range:
  fixes n :: int
  assumes "0 \<le> x" "x < n" "0 \<le> y" "y < n"
  shows "0 \<le> x + y * n" and "x + y * n < n * n"
proof -
  show "0 \<le> x + y * n" using assms by simp
  have "y + 1 \<le> n" using assms by simp
  then have "(y + 1) * n \<le> n * n" using assms by (intro mult_right_mono) auto
  then show "x + y * n < n * n" using assms by (simp add: algebra_simps)
qed

lemma wf_board_at_offset:
  assumes "wf_board b" and "0 \<le> x" "x < cellsX b" "0 \<le> y" "y < cellsX b"
  shows "nat (x + y * cellsX b) < length (cells b)"
    and "cellX (cells b ! nat (x + y * cellsX b)) = x"
    and "cellY (cells b ! nat (x + y * cellsX b)) = y"
proof -
  have len: "int (length (cells b)) = cellsX b * cellsX b"
    using wf_board_size[OF assms(1)] by simp
  have r: "0 \<le> x + y * cellsX b" "x + y * cellsX b < cellsX b * cellsX b"
    using grid_offset_range[OF assms(2-5)] by simp_all
  show lt: "nat (x + y * cellsX b) < length (cells b)" using r len by linarith
  show "cellX (cells b ! nat (x + y * cellsX b)) = x"
    using wf_board_cell(1)[OF assms(1) lt] r assms by simp
  show "cellY (cells b ! nat (x + y * cellsX b)) = y"
    using wf_board_cell(2)[OF assms(1) lt] r assms by simp
qed

lemma wrap_dec_mod:
  fixes v n :: int
  assumes "0 \<le> v" "v < n"
  shows "(if v = 0 then n - 1 else v - 1) = (v - 1) mod n"
  using assms by (simp add: zmod_minus1)

lemma wrap_inc_mod:
  fixes v n :: int
  assumes "0 \<le> v" "v < n"
  shows "(if v = n - 1 then 0 else v + 1) = (v + 1) mod n"
  using assms by simp

lemma neighbour_limits_mod:
  assumes "0 \<le> cellX c" "cellX c < cellsX b" "0 \<le> cellY c" "cellY c < cellsY b"
    and "dx \<in> {-1, 0, 1}" "dy \<in> {-1, 0, 1}"
  shows "neighbour_limits c b (dx, dy) = ((cellX c + dx) mod cellsX b, (cellY c + dy) mod cellsY b)"
proof -
  have x: "fst (neighbour_limits c b (dx, dy)) = (cellX c + dx) mod cellsX b"
    using assms(5) wrap_dec_mod[OF assms(1,2)] wrap_inc_mod[OF assms(1,2)] assms(1,2)
    by (auto simp: neighbour_limits_def Let_def)
  have y: "snd (neighbour_limits c b (dx, dy)) = (cellY c + dy) mod cellsY b"
    using assms(6) wrap_dec_mod[OF assms(3,4)] wrap_inc_mod[OF assms(3,4)] assms(3,4)
    by (auto simp: neighbour_limits_def Let_def)
  show ?thesis using x y by (simp add: prod_eq_iff)
qed

text \<open>
  Claim C5. On the \<open>n \<times> n\<close> board, for every \<open>n \<ge> 1\<close>, the cell at offset 0 is the
  top-left cell \<open>(0, 0)\<close>; the lookup in direction \<open>TOP\<close> reads the bottom-left cell
  \<open>(0, n - 1)\<close> and the lookup in direction \<open>LEFT\<close> reads the top-right cell
  \<open>(n - 1, 0)\<close>. For every cell and every shift the looked-up position is the position
  plus the shift modulo the dimension: below the low edge it is \<open>n - 1\<close>, beyond the high
  edge it is 0.
\<close>

theorem neighbour_wraparound:
  assumes "wf_board b"
  shows "(let n = cellsX b; c = cells b ! 0;
              bottom_left = cells b ! nat ((n - 1) * n); top_right = cells b ! nat (n - 1)
          in (cellX c, cellY c) = (0, 0)
             \<and> (cellX bottom_left, cellY bottom_left) = (0, n - 1)
             \<and> (cellX top_right, cellY top_right) = (n - 1, 0)
             \<and> neighbour_offset c b TOP = Some ((n - 1) * n)
             \<and> get_neighbour_living c b TOP = Some (isLiving bottom_left)
             \<and> neighbour_offset c b LEFT = Some (n - 1)
             \<and> get_neighbour_living c b LEFT = Some (isLiving top_right)
             \<and> (\<forall>i<length (cells b). \<forall>dx\<in>{-1, 0, 1}. \<forall>dy\<in>{-1, 0, 1}.
                    neighbour_limits (cells b ! i) b (dx, dy)
                    = ((cellX (cells b ! i) + dx) mod n, (cellY (cells b ! i) + dy) mod n)))"
proof -
  define n where "n = cellsX b"
  have n: "1 \<le> n" and sq: "cellsY b = n" and len: "int (length (cells b)) = n * n"
    and pos: "0 < length (cells b)"
    using wf_board_size[OF assms] by (simp_all add: n_def)
  have c0: "cellX (cells b ! 0) = 0" "cellY (cells b ! 0) = 0"
    using wf_board_cell[OF assms pos] by simp_all
  have bl: "nat ((n - 1) * n) < length (cells b)"
    "cellX (cells b ! nat ((n - 1) * n)) = 0" "cellY (cells b ! nat ((n - 1) * n)) = n - 1"
    using wf_board_at_offset[OF assms, of 0 "n - 1"] n by (simp_all add: n_def)
  have tr: "nat (n - 1) < length (cells b)"
    "cellX (cells b ! nat (n - 1)) = n - 1" "cellY (cells b ! nat (n - 1)) = 0"
    using wf_board_at_offset[OF assms, of "n - 1" 0] n by (simp_all add: n_def)
  have top: "neighbour_offset (cells b ! 0) b TOP = Some ((n - 1) * n)"
    using c0 sq by (simp add: neighbour_offset_def direction_shift_def neighbour_limits_def
        DIRECTIONS_defs n_def)
  have left: "neighbour_offset (cells b ! 0) b LEFT = Some (n - 1)"
    using c0 sq by (simp add: neighbour_offset_def direction_shift_def neighbour_limits_def
        DIRECTIONS_defs n_def)
  have "get_neighbour_living (cells b ! 0) b TOP = Some (isLiving (cells b ! nat ((n - 1) * n)))"
    using top bl(1) n by (simp add: get_neighbour_living_def)
  moreover have "get_neighbour_living (cells b ! 0) b LEFT = Some (isLiving (cells b ! nat (n - 1)))"
    using left tr(1) n by (simp add: get_neighbour_living_def)
  moreover have "\<forall>i<length (cells b). \<forall>dx\<in>{-1, 0, 1}. \<forall>dy\<in>{-1, 0, 1}.
      neighbour_limits (cells b ! i) b (dx, dy)
      = ((cellX (cells b ! i) + dx) mod n, (cellY (cells b ! i) + dy) mod n)"
  proof (intro allI impI ballI)
    fix i dx dy
    assume i: "i < length (cells b)" and d: "dx \<in> {-1, 0, 1::int}" "dy \<in> {-1, 0, 1::int}"
    have r: "0 \<le> cellX (cells b ! i)" "cellX (cells b ! i) < cellsX b"
      "0 \<le> cellY (cells b ! i)" "cellY (cells b ! i) < cellsY b"
      using wf_board_coords_range[OF assms i] sq by (simp_all add: n_def)
    show "neighbour_limits (cells b ! i) b (dx, dy)
      = ((cellX (cells b ! i) + dx) mod n, (cellY (cells b ! i) + dy) mod n)"
      using neighbour_limits_mod[OF r d] sq by (simp add: n_def)
  qed
  ultimately show ?thesis
    using c0 bl tr top left by (simp add: Let_def n_def[symmetric])
qed

theorem neighbour_wraparound_witness:
  "wf_board (main_board 5)
   \<and> neighbour_offset (cells (main_board 5) ! 0) (main_board 5) TOP = Some 20
   \<and> neighbour_offset (cells (main_board 5) ! 0) (main_board 5) LEFT = Some 4"
proof -
  have h: "wf_board (main_board 5)" by code_simp
  have n: "cellsX (main_board 5) = 5" by (simp add: main_board_def)
  from neighbour_wraparound[OF h] show ?thesis
    using h by (simp add: Let_def n)
qed

subsection \<open>One turn\<close>

lemma get_neighbour_living_wf:
  assumes wf: "wf_board b" and i: "i < length (cells b)"
    and d: "direction_shift d = Some (dx, dy)" and r: "dx \<in> {-1, 0, 1}" "dy \<in> {-1, 0, 1}"
  shows "get_neighbour_living (cells b ! i) b d
         = Some (alive_at b (int i mod cellsX b + dx) (int i div cellsX b + dy))"
proof -
  define n where "n = cellsX b"
  have n: "1 \<le> n" and sq: "cellsY b = n" using wf_board_size[OF wf] by (simp_all add: n_def)
  have xy: "cellX (cells b ! i) = int i mod n" "cellY (cells b ! i) = int i div n"
    using wf_board_cell[OF wf i] by (simp_all add: n_def)
  have rg: "0 \<le> cellX (cells b ! i)" "cellX (cells b ! i) < cellsX b"
      "0 \<le> cellY (cells b ! i)" "cellY (cells b ! i) < cellsY b"
    using wf_board_coords_range[OF wf i] sq by (simp_all add: n_def)
  have lim: "neighbour_limits (cells b ! i) b (dx, dy)
             = ((int i mod n + dx) mod n, (int i div n + dy) mod n)"
    using neighbour_limits_mod[OF rg r] xy sq by (simp add: n_def)
  have off: "neighbour_offset (cells b ! i) b d
             = Some ((int i mod n + dx) mod n + ((int i div n + dy) mod n) * n)"
    using d lim sq by (simp add: neighbour_offset_def)
  have m: "0 \<le> (int i mod n + dx) mod n" "(int i mod n + dx) mod n < n"
    "0 \<le> (int i div n + dy) mod n" "(int i div n + dy) mod n < n"
    using n by simp_all
  have inr: "nat ((int i mod n + dx) mod n + ((int i div n + dy) mod n) * n) < length (cells b)"
    using wf_board_at_offset(1)[OF wf, of "(int i mod n + dx) mod n" "(int i div n + dy) mod n"] m
    by (simp add: n_def)
  have nonneg: "0 \<le> (int i mod n + dx) mod n + ((int i div n + dy) mod n) * n"
    using m n by simp
  show ?thesis
    using off inr nonneg
    by (simp add: get_neighbour_living_def alive_at_def n_def[symmetric])
qed

lemma count_neighbours_filter:
  assumes "\<forall>d\<in>set ds. get_neighbour_living c b d = Some (f d)"
  shows "count_neighbours c b ds acc = Some (acc + length (filter f ds))"
  using assms by (induction ds arbitrary: acc) simp_all

lemma direction_shift_values:
  "direction_shift 0 = Some (0, -1)" "direction_shift 1 = Some (1, -1)"
  "direction_shift 2 = Some (1, 0)" "direction_shift 3 = Some (1, 1)"
  "direction_shift 4 = Some (0, 1)" "direction_shift 5 = Some (-1, 1)"
  "direction_shift 6 = Some (-1, 0)" "direction_shift 7 = Some (-1, -1)"
  by (simp_all add: direction_shift_def DIRECTIONS_defs)

lemma count_neighbours_wf:
  assumes wf: "wf_board b" and i: "i < length (cells b)"
  shows "count_neighbours (cells b ! i) b all_directions 0 = Some (spec_living_neighbours b i)"
proof -
  define x where "x = int i mod cellsX b"
  define y where "y = int i div cellsX b"
  define g where "g = (\<lambda>d. if d = (0::int) then alive_at b (x + 0) (y + (-1))
      else if d = 1 then alive_at b (x + 1) (y + (-1))
      else if d = 2 then alive_at b (x + 1) (y + 0)
      else if d = 3 then alive_at b (x + 1) (y + 1)
      else if d = 4 then alive_at b (x + 0) (y + 1)
      else if d = 5 then alive_at b (x + (-1)) (y + 1)
      else if d = 6 then alive_at b (x + (-1)) (y + 0)
      else alive_at b (x + (-1)) (y + (-1)))"
  have "\<forall>d\<in>set all_directions. get_neighbour_living (cells b ! i) b d = Some (g d)"
    using get_neighbour_living_wf[OF wf i direction_shift_values(1)]
      get_neighbour_living_wf[OF wf i direction_shift_values(2)]
      get_neighbour_living_wf[OF wf i direction_shift_values(3)]
      get_neighbour_living_wf[OF wf i direction_shift_values(4)]
      get_neighbour_living_wf[OF wf i direction_shift_values(5)]
      get_neighbour_living_wf[OF wf i direction_shift_values(6)]
      get_neighbour_living_wf[OF wf i direction_shift_values(7)]
      get_neighbour_living_wf[OF wf i direction_shift_values(8)]
    by (simp add: all_directions_def g_def x_def y_def)
  then have "count_neighbours (cells b ! i) b all_directions 0
             = Some (0 + length (filter g all_directions))"
    by (rule count_neighbours_filter)
  moreover have "length (filter g all_directions) = spec_living_neighbours b i"
    by (simp add: all_directions_def spec_living_neighbours_def torus_shifts_def g_def
        x_def y_def Let_def)
  ultimately show ?thesis by simp
qed

lemma nth_set_true:
  "j < length xs \<Longrightarrow> xs ! j \<Longrightarrow> xs[i := True] ! j"
  by (cases "i = j") simp_all

lemma nth_set_true_other:
  "xs[i := True] ! j \<Longrightarrow> \<not> xs ! j \<Longrightarrow> j = i"
  by (cases "i = j") simp_all

lemma mark_round_result:
  assumes "\<forall>i\<in>set is. i < length (cells b)
             \<and> count_neighbours (cells b ! i) b all_directions 0 = Some (cnt i)"
  shows "\<exists>death' born'. mark_round b is (death, born) = Some (death', born')
           \<and> length death' = length death \<and> length born' = length born
           \<and> (\<forall>j<length death. death' ! j
                 = (death ! j \<or> (j \<in> set is \<and> isLiving (cells b ! j) \<and> (cnt j < 2 \<or> cnt j > 3))))
           \<and> (\<forall>j<length born. born' ! j
                 = (born ! j \<or> (j \<in> set is \<and> \<not> isLiving (cells b ! j) \<and> cnt j = 3)))"
  using assms
proof (induction "is" arbitrary: death born)
  case Nil
  then show ?case by simp
next
  case (Cons i "is")
  have i: "i < length (cells b)"
    and c: "count_neighbours (cells b ! i) b all_directions 0 = Some (cnt i)"
    and rest: "\<forall>k\<in>set is. k < length (cells b)
             \<and> count_neighbours (cells b ! k) b all_directions 0 = Some (cnt k)"
    using Cons.prems by simp_all
  define death1 where "death1 =
    (if isLiving (cells b ! i) \<and> (cnt i < 2 \<or> cnt i > 3) then death[i := True] else death)"
  define born1 where "born1 =
    (if \<not> isLiving (cells b ! i) \<and> cnt i = 3 then born[i := True] else born)"
  have step: "mark_round b (i # is) (death, born) = mark_round b is (death1, born1)"
    using i c by (simp add: cell_at_def death1_def born1_def)
  obtain death' born' where r: "mark_round b is (death1, born1) = Some (death', born')"
    "length death' = length death1" "length born' = length born1"
    "\<forall>j<length death1. death' ! j
        = (death1 ! j \<or> (j \<in> set is \<and> isLiving (cells b ! j) \<and> (cnt j < 2 \<or> cnt j > 3)))"
    "\<forall>j<length born1. born' ! j
        = (born1 ! j \<or> (j \<in> set is \<and> \<not> isLiving (cells b ! j) \<and> cnt j = 3))"
    using Cons.IH[OF rest, of death1 born1] by blast
  have l: "length death1 = length death" "length born1 = length born"
    by (simp_all add: death1_def born1_def)
  have d1: "\<forall>j<length death. death1 ! j
      = (death ! j \<or> (j = i \<and> isLiving (cells b ! j) \<and> (cnt j < 2 \<or> cnt j > 3)))"
    by (auto simp: death1_def intro: nth_set_true dest: nth_set_true_other)
  have b1: "\<forall>j<length born. born1 ! j
      = (born ! j \<or> (j = i \<and> \<not> isLiving (cells b ! j) \<and> cnt j = 3))"
    by (auto simp: born1_def intro: nth_set_true dest: nth_set_true_other)
  have "\<forall>j<length death. death' ! j
      = (death ! j \<or> (j \<in> set (i # is) \<and> isLiving (cells b ! j) \<and> (cnt j < 2 \<or> cnt j > 3)))"
    using r(4) d1 l by auto
  moreover have "\<forall>j<length born. born' ! j
      = (born ! j \<or> (j \<in> set (i # is) \<and> \<not> isLiving (cells b ! j) \<and> cnt j = 3))"
    using r(5) b1 l by auto
  ultimately show ?case using step r(1,2,3) l by simp
qed

lemma commit_round_result:
  assumes "\<forall>i\<in>set is. i < length (cells b) \<and> i < length death \<and> i < length born"
    and "distinct is"
  shows "\<exists>b'. commit_round death born is b = Some b'
           \<and> length (cells b') = length (cells b)
           \<and> cellsX b' = cellsX b \<and> cellsY b' = cellsY b \<and> cellCount b' = cellCount b
           \<and> turns b' = turns b
           \<and> (\<forall>j<length (cells b). cells b' ! j
                 = (if j \<in> set is then committed (death ! j) (born ! j) (cells b ! j)
                    else cells b ! j))
           \<and> isDirty b' = (isDirty b \<or> (\<exists>j\<in>set is. death ! j \<or> born ! j))"
  using assms
proof (induction "is" arbitrary: b)
  case Nil
  then show ?case by simp
next
  case (Cons i "is")
  have i: "i < length (cells b)" "i < length death" "i < length born"
    and notin: "i \<notin> set is" and dist: "distinct is"
    using Cons.prems by simp_all
  define b1 where "b1 =
     (if death ! i
      then b\<lparr>livingCells := livingCells b - 1, isDirty := True,
              cells := (cells b)[i := committed True (born ! i) (cells b ! i)]\<rparr>
      else if born ! i
      then b\<lparr>livingCells := livingCells b + 1, isDirty := True,
              cells := (cells b)[i := committed False True (cells b ! i)]\<rparr>
      else b\<lparr>cells := (cells b)[i := committed False False (cells b ! i)]\<rparr>)"
  have step: "commit_round death born (i # is) b = commit_round death born is b1"
    using i by (simp add: modify_cell_def b1_def committed_def)
  have f1: "length (cells b1) = length (cells b)" "cellsX b1 = cellsX b" "cellsY b1 = cellsY b"
    "cellCount b1 = cellCount b" "turns b1 = turns b"
    "isDirty b1 = (isDirty b \<or> death ! i \<or> born ! i)"
    "cells b1 = (cells b)[i := committed (death ! i) (born ! i) (cells b ! i)]"
    by (simp_all add: b1_def committed_def)
  have rest: "\<forall>k\<in>set is. k < length (cells b1) \<and> k < length death \<and> k < length born"
    using Cons.prems(1) f1(1) by simp
  obtain b' where r: "commit_round death born is b1 = Some b'"
    "length (cells b') = length (cells b1)"
    "cellsX b' = cellsX b1" "cellsY b' = cellsY b1" "cellCount b' = cellCount b1"
    "turns b' = turns b1"
    "\<forall>j<length (cells b1). cells b' ! j
        = (if j \<in> set is then committed (death ! j) (born ! j) (cells b1 ! j) else cells b1 ! j)"
    "isDirty b' = (isDirty b1 \<or> (\<exists>j\<in>set is. death ! j \<or> born ! j))"
    using Cons.IH[OF rest dist] by blast
  have cellsb': "\<forall>j<length (cells b). cells b' ! j
      = (if j \<in> set (i # is) then committed (death ! j) (born ! j) (cells b ! j) else cells b ! j)"
  proof (intro allI impI)
    fix j assume j: "j < length (cells b)"
    show "cells b' ! j
      = (if j \<in> set (i # is) then committed (death ! j) (born ! j) (cells b ! j) else cells b ! j)"
    proof (cases "j = i")
      case True
      then show ?thesis using r(7) f1(1,7) j notin by simp
    next
      case False
      then show ?thesis using r(7) f1(1,7) j by simp
    qed
  qed
  have "isDirty b' = (isDirty b \<or> (\<exists>j\<in>set (i # is). death ! j \<or> born ! j))"
    using r(8) f1(6) by auto
  then show ?case using step r(1-6) f1(1-5) cellsb' by simp
qed

lemma living_count_append: "living_count (xs @ ys) = living_count xs + living_count ys"
  by (simp add: living_count_def)

lemma living_count_split:
  assumes "i < length cs"
  shows "living_count cs
         = living_count (take i cs) + (if isLiving (cs ! i) then 1 else 0)
           + living_count (drop (Suc i) cs)"
proof -
  have "cs = take i cs @ cs ! i # drop (Suc i) cs"
    using assms by (rule id_take_nth_drop)
  then have "living_count cs = living_count (take i cs @ cs ! i # drop (Suc i) cs)" by simp
  then show ?thesis by (simp add: living_count_def)
qed

lemma living_count_update:
  assumes "i < length cs"
  shows "living_count (cs[i := c])
         = living_count (take i cs) + (if isLiving c then 1 else 0)
           + living_count (drop (Suc i) cs)"
proof -
  have "cs[i := c] = take i cs @ c # drop (Suc i) cs"
    using assms by (rule upd_conv_take_nth_drop)
  then show ?thesis by (simp add: living_count_def)
qed

lemma living_count_le: "living_count cs \<le> length cs"
  by (simp add: living_count_def)

lemma living_count_all_dead:
  "(\<forall>c\<in>set cs. \<not> isLiving c) \<Longrightarrow> living_count cs = 0"
  by (simp add: living_count_def)

lemma commit_round_living:
  assumes "\<forall>i\<in>set is. i < length (cells b) \<and> i < length death \<and> i < length born
              \<and> (death ! i \<longrightarrow> isLiving (cells b ! i))
              \<and> (born ! i \<longrightarrow> \<not> isLiving (cells b ! i))"
    and "distinct is"
    and "livingCells b = word_of_nat (living_count (cells b))"
    and "commit_round death born is b = Some b'"
  shows "livingCells b' = word_of_nat (living_count (cells b'))"
  using assms
proof (induction "is" arbitrary: b)
  case Nil
  then show ?case by simp
next
  case (Cons i "is")
  have i: "i < length (cells b)" "i < length death" "i < length born"
    and di: "death ! i \<Longrightarrow> isLiving (cells b ! i)"
    and bi: "born ! i \<Longrightarrow> \<not> isLiving (cells b ! i)"
    and notin: "i \<notin> set is" and dist: "distinct is"
    using Cons.prems by simp_all
  define b1 where "b1 =
     (if death ! i
      then b\<lparr>livingCells := livingCells b - 1, isDirty := True,
              cells := (cells b)[i := committed True (born ! i) (cells b ! i)]\<rparr>
      else if born ! i
      then b\<lparr>livingCells := livingCells b + 1, isDirty := True,
              cells := (cells b)[i := committed False True (cells b ! i)]\<rparr>
      else b\<lparr>cells := (cells b)[i := committed False False (cells b ! i)]\<rparr>)"
  have step: "commit_round death born (i # is) b = commit_round death born is b1"
    using i by (simp add: modify_cell_def b1_def committed_def)
  have cells1: "cells b1 = (cells b)[i := committed (death ! i) (born ! i) (cells b ! i)]"
    by (simp add: b1_def committed_def)
  have inv1: "livingCells b1 = word_of_nat (living_count (cells b1))"
  proof (cases "death ! i")
    case True
    then have alive: "isLiving (cells b ! i)" by (rule di)
    have "living_count (cells b) = Suc (living_count (cells b1))"
      using True alive living_count_split[OF i(1)]
        living_count_update[OF i(1), of "committed True (born ! i) (cells b ! i)"]
      by (simp add: cells1 committed_def)
    then show ?thesis using True Cons.prems(3) by (simp add: b1_def)
  next
    case False
    show ?thesis
    proof (cases "born ! i")
      case True
      then have dead: "\<not> isLiving (cells b ! i)" by (rule bi)
      have "living_count (cells b1) = Suc (living_count (cells b))"
        using True False dead living_count_split[OF i(1)]
          living_count_update[OF i(1), of "committed False True (cells b ! i)"]
        by (simp add: cells1 committed_def)
      then show ?thesis using True False Cons.prems(3) by (simp add: b1_def)
    next
      case nb: False
      have "living_count (cells b1) = living_count (cells b)"
        using False nb living_count_split[OF i(1)]
          living_count_update[OF i(1), of "committed False False (cells b ! i)"]
        by (simp add: cells1 committed_def)
      then show ?thesis using False nb Cons.prems(3) by (simp add: b1_def)
    qed
  qed
  have rest: "\<forall>k\<in>set is. k < length (cells b1) \<and> k < length death \<and> k < length born
              \<and> (death ! k \<longrightarrow> isLiving (cells b1 ! k))
              \<and> (born ! k \<longrightarrow> \<not> isLiving (cells b1 ! k))"
  proof
    fix k assume k: "k \<in> set is"
    then have "k \<noteq> i" using notin by auto
    then have "cells b1 ! k = cells b ! k" by (simp add: cells1)
    then show "k < length (cells b1) \<and> k < length death \<and> k < length born
              \<and> (death ! k \<longrightarrow> isLiving (cells b1 ! k))
              \<and> (born ! k \<longrightarrow> \<not> isLiving (cells b1 ! k))"
      using Cons.prems(1) k by (simp add: cells1)
  qed
  show ?case
    using Cons.IH[OF rest dist inv1] Cons.prems(4) step by simp
qed

lemma wf_board_length_bound:
  assumes "wf_board b"
  shows "length (cells b) < 2 ^ 32"
proof -
  have "unat (cellCount b) < 2 ^ LENGTH(32)" by (rule unsigned_less)
  then show ?thesis using wf_board_size(3)[OF assms] by simp
qed

lemma turn_limit_never_exceeded: "\<not> (w :: uint) > TURN_LIMIT"
proof -
  have "unat w < 2 ^ LENGTH(32)" by (rule unsigned_less)
  then show ?thesis by (simp add: TURN_LIMIT_def word_less_nat_alt)
qed

lemma applyTurn_result:
  assumes wf: "wf_board b"
  shows "\<exists>b'. applyTurn b h = Some b'
           \<and> length (cells b') = length (cells b)
           \<and> cellsX b' = cellsX b \<and> cellsY b' = cellsY b \<and> cellCount b' = cellCount b
           \<and> turns b' = (if h then turns b else turns b + 1)
           \<and> (\<forall>j<length (cells b).
                 cells b' ! j = committed (will_die b j) (will_be_born b j) (cells b ! j))
           \<and> isDirty b' = (\<exists>j<length (cells b). will_die b j \<or> will_be_born b j)
           \<and> (livingCells b = word_of_nat (living_count (cells b))
                \<longrightarrow> livingCells b' = word_of_nat (living_count (cells b')))"
proof -
  define n where "n = length (cells b)"
  define b0 where "b0 = b\<lparr>isDirty := False\<rparr>"
  have cc: "unat (cellCount b) = n" using wf_board_size(3)[OF wf] by (simp add: n_def)
  have wf0: "wf_board b0" using wf by (simp add: wf_board_def b0_def)
  have same: "cells b0 = cells b" "cellsX b0 = cellsX b" by (simp_all add: b0_def)
  have sp: "\<And>i. spec_living_neighbours b0 i = spec_living_neighbours b i"
    by (simp add: spec_living_neighbours_def alive_at_def same)
  have cnt: "\<forall>i\<in>set [0..<n]. i < length (cells b0)
        \<and> count_neighbours (cells b0 ! i) b0 all_directions 0 = Some (spec_living_neighbours b i)"
    using count_neighbours_wf[OF wf0] sp by (simp add: n_def same)
  obtain death born where m: "mark_round b0 [0..<n] (replicate n False, replicate n False)
        = Some (death, born)"
    "length death = n" "length born = n"
    "\<forall>j<n. death ! j = will_die b j" "\<forall>j<n. born ! j = will_be_born b j"
    using mark_round_result[OF cnt, of "replicate n False" "replicate n False"]
    by (auto simp: will_die_def will_be_born_def same)
  have pre: "\<forall>i\<in>set [0..<n]. i < length (cells b0) \<and> i < length death \<and> i < length born"
    using m(2,3) by (simp add: n_def same)
  obtain b1 where c: "commit_round death born [0..<n] b0 = Some b1"
    "length (cells b1) = length (cells b0)"
    "cellsX b1 = cellsX b0" "cellsY b1 = cellsY b0" "cellCount b1 = cellCount b0"
    "turns b1 = turns b0"
    "\<forall>j<length (cells b0). cells b1 ! j
        = (if j \<in> set [0..<n] then committed (death ! j) (born ! j) (cells b0 ! j)
           else cells b0 ! j)"
    "isDirty b1 = (isDirty b0 \<or> (\<exists>j\<in>set [0..<n]. death ! j \<or> born ! j))"
    using commit_round_result[OF pre] by auto
  have pre2: "\<forall>i\<in>set [0..<n]. i < length (cells b0) \<and> i < length death \<and> i < length born
              \<and> (death ! i \<longrightarrow> isLiving (cells b0 ! i))
              \<and> (born ! i \<longrightarrow> \<not> isLiving (cells b0 ! i))"
    using m(2-5) by (simp add: n_def same will_die_def will_be_born_def)
  have liv: "livingCells b = word_of_nat (living_count (cells b))
       \<Longrightarrow> livingCells b1 = word_of_nat (living_count (cells b1))"
    using commit_round_living[OF pre2 _ _ c(1)] by (simp add: b0_def)
  define b2 where "b2 = (if h then b1 else b1\<lparr>turns := turns b1 + 1\<rparr>)"
  have res: "applyTurn b h = Some b2"
    using m(1) c(1) turn_limit_never_exceeded
    by (simp add: applyTurn_def cc b0_def[symmetric] b2_def Let_def)
  have cells2: "cells b2 = cells b1" by (simp add: b2_def)
  have "\<forall>j<length (cells b). cells b2 ! j
        = committed (will_die b j) (will_be_born b j) (cells b ! j)"
    using c(7) m(4,5) by (simp add: same n_def cells2)
  moreover have "isDirty b2 = (\<exists>j<length (cells b). will_die b j \<or> will_be_born b j)"
    using c(8) m(4,5) by (auto simp: b2_def b0_def n_def)
  moreover have "livingCells b = word_of_nat (living_count (cells b))
                \<longrightarrow> livingCells b2 = word_of_nat (living_count (cells b2))"
    using liv by (simp add: b2_def)
  moreover have "turns b2 = (if h then turns b else turns b + 1)"
    using c(6) by (simp add: b2_def b0_def)
  ultimately show ?thesis
    using res c(2-5) by (simp add: same cells2 b2_def b0_def)
qed

lemma applyTurn_wf:
  assumes wf: "wf_board b" and r: "applyTurn b h = Some b'"
  shows "wf_board b'"
proof -
  obtain b2 where b2: "applyTurn b h = Some b2" "length (cells b2) = length (cells b)"
    "cellsX b2 = cellsX b" "cellsY b2 = cellsY b" "cellCount b2 = cellCount b"
    "\<forall>j<length (cells b).
        cells b2 ! j = committed (will_die b j) (will_be_born b j) (cells b ! j)"
    using applyTurn_result[OF wf, of h] by blast
  have eq: "b2 = b'" using b2(1) r by simp
  have "\<forall>j<length (cells b). cellX (cells b' ! j) = cellX (cells b ! j)
        \<and> cellY (cells b' ! j) = cellY (cells b ! j)"
    using b2(6) by (simp add: eq committed_def)
  then show ?thesis
    using wf b2(2-5) by (simp add: eq wf_board_def list_all_iff)
qed

text \<open>
  Claim C2. On every well-formed board one call of \<open>applyTurn\<close> returns a board of the
  same size in which a cell is alive exactly if, on the board before the call, it was
  alive with two or three living neighbours or dead with exactly three, the neighbours
  being counted on the torus of the board before the call; the \<open>cellChanged\<close> flag of a
  cell is set exactly if its \<open>isLiving\<close> flag differs from the one before the call.
\<close>

theorem applyTurn_rule:
  assumes "wf_board b"
  shows "\<exists>b'. applyTurn b h = Some b' \<and> length (cells b') = length (cells b)
           \<and> (\<forall>i<length (cells b).
                 (isLiving (cells b' ! i)
                   \<longleftrightarrow> (isLiving (cells b ! i)
                          \<and> (spec_living_neighbours b i = 2 \<or> spec_living_neighbours b i = 3))
                        \<or> (\<not> isLiving (cells b ! i) \<and> spec_living_neighbours b i = 3))
                 \<and> (cellChanged (cells b' ! i)
                      \<longleftrightarrow> isLiving (cells b' ! i) \<noteq> isLiving (cells b ! i)))"
proof -
  obtain b' where b': "applyTurn b h = Some b'" "length (cells b') = length (cells b)"
    "\<forall>j<length (cells b).
        cells b' ! j = committed (will_die b j) (will_be_born b j) (cells b ! j)"
    using applyTurn_result[OF assms, of h] by blast
  have "\<forall>i<length (cells b).
                 (isLiving (cells b' ! i)
                   \<longleftrightarrow> (isLiving (cells b ! i)
                          \<and> (spec_living_neighbours b i = 2 \<or> spec_living_neighbours b i = 3))
                        \<or> (\<not> isLiving (cells b ! i) \<and> spec_living_neighbours b i = 3))
                 \<and> (cellChanged (cells b' ! i)
                      \<longleftrightarrow> isLiving (cells b' ! i) \<noteq> isLiving (cells b ! i))"
    using b'(3) by (auto simp: committed_def will_die_def will_be_born_def)
  then show ?thesis using b'(1,2) by blast
qed

theorem applyTurn_rule_witness:
  "wf_board blinker_board
   \<and> (\<exists>b'. applyTurn blinker_board False = Some b'
            \<and> isLiving (cells b' ! 1) \<and> cellChanged (cells b' ! 1)
            \<and> \<not> isLiving (cells b' ! 5) \<and> cellChanged (cells b' ! 5)
            \<and> isLiving (cells b' ! 6) \<and> \<not> cellChanged (cells b' ! 6))"
proof -
  have h: "wf_board blinker_board" by code_simp
  have len: "length (cells blinker_board) = 25" by code_simp
  have c1: "\<not> isLiving (cells blinker_board ! 1)" "spec_living_neighbours blinker_board 1 = 3"
    by code_simp+
  have c5: "isLiving (cells blinker_board ! 5)" "spec_living_neighbours blinker_board 5 = 1"
    by code_simp+
  have c6: "isLiving (cells blinker_board ! 6)" "spec_living_neighbours blinker_board 6 = 2"
    by code_simp+
  from applyTurn_rule[OF h, of False] obtain b' where
    b': "applyTurn blinker_board False = Some b'"
    and r: "\<forall>i<length (cells blinker_board).
                 (isLiving (cells b' ! i)
                   \<longleftrightarrow> (isLiving (cells blinker_board ! i)
                          \<and> (spec_living_neighbours blinker_board i = 2
                              \<or> spec_living_neighbours blinker_board i = 3))
                        \<or> (\<not> isLiving (cells blinker_board ! i)
                            \<and> spec_living_neighbours blinker_board i = 3))
                 \<and> (cellChanged (cells b' ! i)
                      \<longleftrightarrow> isLiving (cells b' ! i) \<noteq> isLiving (cells blinker_board ! i))"
    by blast
  have "isLiving (cells b' ! 1) \<and> cellChanged (cells b' ! 1)"
    using r[rule_format, of 1] c1 len by simp
  moreover have "\<not> isLiving (cells b' ! 5) \<and> cellChanged (cells b' ! 5)"
    using r[rule_format, of 5] c5 len by simp
  moreover have "isLiving (cells b' ! 6) \<and> \<not> cellChanged (cells b' ! 6)"
    using r[rule_format, of 6] c6 len by simp
  ultimately show ?thesis using h b' by blast
qed

subsection \<open>Reset and random board\<close>

lemma reset_cells_result:
  assumes "\<forall>i\<in>set is. i < length (cells b)"
  shows "\<exists>b'. reset_cells is b = Some b'
           \<and> length (cells b') = length (cells b)
           \<and> cellsX b' = cellsX b \<and> cellsY b' = cellsY b \<and> cellCount b' = cellCount b
           \<and> turns b' = turns b \<and> livingCells b' = livingCells b \<and> isDirty b' = isDirty b
           \<and> (\<forall>j<length (cells b). cells b' ! j
                 = (if j \<in> set is then (cells b ! j)\<lparr>isLiving := False, cellChanged := False\<rparr>
                    else cells b ! j))"
  using assms
proof (induction "is" arbitrary: b)
  case Nil
  then show ?case by simp
next
  case (Cons i "is")
  have i: "i < length (cells b)" using Cons.prems by simp
  define b1 where
    "b1 = b\<lparr>cells := (cells b)[i := (cells b ! i)\<lparr>isLiving := False, cellChanged := False\<rparr>]\<rparr>"
  have step: "reset_cells (i # is) b = reset_cells is b1"
    using i by (simp add: modify_cell_def b1_def)
  have rest: "\<forall>k\<in>set is. k < length (cells b1)" using Cons.prems by (simp add: b1_def)
  obtain b' where r: "reset_cells is b1 = Some b'"
    "length (cells b') = length (cells b1)"
    "cellsX b' = cellsX b1" "cellsY b' = cellsY b1" "cellCount b' = cellCount b1"
    "turns b' = turns b1" "livingCells b' = livingCells b1" "isDirty b' = isDirty b1"
    "\<forall>j<length (cells b1). cells b' ! j
        = (if j \<in> set is then (cells b1 ! j)\<lparr>isLiving := False, cellChanged := False\<rparr>
           else cells b1 ! j)"
    using Cons.IH[OF rest] by blast
  have "\<forall>j<length (cells b). cells b' ! j
      = (if j \<in> set (i # is) then (cells b ! j)\<lparr>isLiving := False, cellChanged := False\<rparr>
         else cells b ! j)"
  proof (intro allI impI)
    fix j assume j: "j < length (cells b)"
    show "cells b' ! j
      = (if j \<in> set (i # is) then (cells b ! j)\<lparr>isLiving := False, cellChanged := False\<rparr>
         else cells b ! j)"
      using r(9) j by (cases "j = i") (simp_all add: b1_def)
  qed
  then show ?case using step r(1-8) by (simp add: b1_def)
qed

lemma reset_cells_all:
  assumes "unat (cellCount b) = length (cells b)"
  shows "\<exists>b'. reset_cells [0..<unat (cellCount b)] b = Some b'
           \<and> length (cells b') = length (cells b)
           \<and> cellsX b' = cellsX b \<and> cellsY b' = cellsY b \<and> cellCount b' = cellCount b
           \<and> turns b' = turns b \<and> livingCells b' = livingCells b \<and> isDirty b' = isDirty b
           \<and> (\<forall>j<length (cells b).
                 cells b' ! j = (cells b ! j)\<lparr>isLiving := False, cellChanged := False\<rparr>)"
proof -
  have "\<forall>i\<in>set [0..<unat (cellCount b)]. i < length (cells b)" using assms by simp
  from reset_cells_result[OF this] show ?thesis using assms by simp
qed

lemma all_dead_living_count:
  assumes "\<forall>j<length cs. \<not> isLiving (cs ! j)"
  shows "living_count cs = 0"
proof -
  have "\<forall>c\<in>set cs. \<not> isLiving c" using assms by (auto simp: in_set_conv_nth)
  then show ?thesis by (rule living_count_all_dead)
qed

lemma resetPlayboard_result:
  assumes "unat (cellCount b) = length (cells b)"
  shows "\<exists>b'. resetPlayboard b = Some b'
           \<and> length (cells b') = length (cells b)
           \<and> cellsX b' = cellsX b \<and> cellsY b' = cellsY b \<and> cellCount b' = cellCount b
           \<and> turns b' = 0 \<and> livingCells b' = 0
           \<and> (\<forall>j<length (cells b).
                 cells b' ! j = (cells b ! j)\<lparr>isLiving := False, cellChanged := False\<rparr>)
           \<and> living_count (cells b') = 0"
proof -
  obtain b1 where r: "reset_cells [0..<unat (cellCount b)] b = Some b1"
    "length (cells b1) = length (cells b)"
    "cellsX b1 = cellsX b" "cellsY b1 = cellsY b" "cellCount b1 = cellCount b"
    "\<forall>j<length (cells b).
        cells b1 ! j = (cells b ! j)\<lparr>isLiving := False, cellChanged := False\<rparr>"
    using reset_cells_all[OF assms] by blast
  have "\<forall>j<length (cells b1). \<not> isLiving (cells b1 ! j)" using r(2,6) by simp
  then have "living_count (cells b1) = 0" by (rule all_dead_living_count)
  then show ?thesis using r by (simp add: resetPlayboard_def)
qed

lemma uint_pos_iff: "0 < (k::uint) \<longleftrightarrow> k \<noteq> 0"
  by (simp add: word_neq_0_conv)

lemma unat_pred:
  assumes "(k::uint) \<noteq> 0"
  shows "unat (k - 1) = unat k - 1" and "0 < unat k" and "unat (k - 1) < unat k"
proof -
  show a: "unat (k - 1) = unat k - 1" using assms by (rule unat_minus_one)
  show b: "0 < unat k" using assms by (simp add: unat_gt_0)
  show "unat (k - 1) < unat k" using a b by simp
qed

lemma seed_loop_result:
  assumes "unat (cellCount b) = length (cells b)"
    and "livingCells b = word_of_nat (living_count (cells b))"
    and "seed_loop draws k b = Some b'"
  shows "length (cells b') = length (cells b) \<and> cellCount b' = cellCount b
         \<and> cellsX b' = cellsX b \<and> cellsY b' = cellsY b \<and> turns b' = turns b
         \<and> livingCells b' = word_of_nat (living_count (cells b'))
         \<and> living_count (cells b') = living_count (cells b) + unat k
         \<and> (\<forall>j<length (cells b). cellX (cells b' ! j) = cellX (cells b ! j)
                \<and> cellY (cells b' ! j) = cellY (cells b ! j)
                \<and> (isLiving (cells b' ! j)
                     \<longrightarrow> isLiving (cells b ! j) \<or> j < unat (cellCount b - 1)))"
  using assms
proof (induction draws arbitrary: k b)
  case Nil
  then show ?case by (simp add: uint_pos_iff split: if_splits)
next
  case (Cons r rs)
  show ?case
  proof (cases "k > 0")
    case False
    then have "k = 0" by (simp add: uint_pos_iff)
    with Cons.prems show ?thesis by simp
  next
    case True
    have nz: "cellCount b - 1 \<noteq> 0" using Cons.prems(3) True by (auto split: if_splits)
    define i where "i = r mod unat (cellCount b - 1)"
    have pos: "0 < unat (cellCount b - 1)" using nz by (simp add: unat_gt_0)
    have ilt: "i < unat (cellCount b - 1)" using pos by (simp add: i_def)
    have "unat (cellCount b - 1) \<le> unat (cellCount b)"
    proof (cases "cellCount b = 0")
      case True
      then have "length (cells b) = 0" using Cons.prems(1) by simp
      then have False using Cons.prems(3) \<open>k > 0\<close> nz
        by (simp add: cell_at_def Let_def)
      then show ?thesis ..
    next
      case False
      then show ?thesis using unat_pred(3)[OF False] by simp
    qed
    then have i: "i < length (cells b)" using ilt Cons.prems(1) by simp
    show ?thesis
    proof (cases "isLiving (cells b ! i)")
      case alive: True
      have "seed_loop (r # rs) k b = seed_loop rs k b"
        using True nz i alive by (simp add: cell_at_def i_def[symmetric] Let_def)
      then show ?thesis using Cons.IH[OF Cons.prems(1,2)] Cons.prems(3) by simp
    next
      case dead: False
      define b1 where "b1 = b\<lparr>livingCells := livingCells b + 1,
          cells := (cells b)[i := (cells b ! i)\<lparr>isLiving := True, cellChanged := True\<rparr>]\<rparr>"
      have step: "seed_loop (r # rs) k b = seed_loop rs (k - 1) b1"
        using True nz i dead
        by (simp add: cell_at_def modify_cell_def i_def[symmetric] Let_def b1_def)
      have cnt1: "living_count (cells b1) = Suc (living_count (cells b))"
        using dead living_count_split[OF i]
          living_count_update[OF i, of "(cells b ! i)\<lparr>isLiving := True, cellChanged := True\<rparr>"]
        by (simp add: b1_def)
      have p1: "unat (cellCount b1) = length (cells b1)" using Cons.prems(1) by (simp add: b1_def)
      have p2: "livingCells b1 = word_of_nat (living_count (cells b1))"
        using Cons.prems(2) cnt1 by (simp add: b1_def)
      have p3: "seed_loop rs (k - 1) b1 = Some b'" using Cons.prems(3) step by simp
      have ih: "length (cells b') = length (cells b1) \<and> cellCount b' = cellCount b1
         \<and> cellsX b' = cellsX b1 \<and> cellsY b' = cellsY b1 \<and> turns b' = turns b1
         \<and> livingCells b' = word_of_nat (living_count (cells b'))
         \<and> living_count (cells b') = living_count (cells b1) + unat (k - 1)
         \<and> (\<forall>j<length (cells b1). cellX (cells b' ! j) = cellX (cells b1 ! j)
                \<and> cellY (cells b' ! j) = cellY (cells b1 ! j)
                \<and> (isLiving (cells b' ! j)
                     \<longrightarrow> isLiving (cells b1 ! j) \<or> j < unat (cellCount b1 - 1)))"
        by (rule Cons.IH[OF p1 p2 p3])
      have knz: "k \<noteq> 0" using True by (simp add: uint_pos_iff)
      have k1: "unat (k - 1) = unat k - 1" and kpos: "0 < unat k"
        using unat_pred[OF knz] by simp_all
      have cnt: "living_count (cells b') = living_count (cells b) + unat k"
        using ih cnt1 k1 kpos by simp
      have cc1: "cellCount b1 = cellCount b" by (simp add: b1_def)
      have per: "\<forall>j<length (cells b). cellX (cells b' ! j) = cellX (cells b ! j)
                \<and> cellY (cells b' ! j) = cellY (cells b ! j)
                \<and> (isLiving (cells b' ! j)
                     \<longrightarrow> isLiving (cells b ! j) \<or> j < unat (cellCount b - 1))"
      proof (intro allI impI)
        fix j assume j: "j < length (cells b)"
        then have j1: "j < length (cells b1)" by (simp add: b1_def)
        have a: "cellX (cells b1 ! j) = cellX (cells b ! j)" "cellY (cells b1 ! j) = cellY (cells b ! j)"
          using j by (cases "j = i"; simp add: b1_def)+
        have b: "isLiving (cells b1 ! j) \<longrightarrow> isLiving (cells b ! j) \<or> j < unat (cellCount b - 1)"
          using j ilt by (cases "j = i") (simp_all add: b1_def)
        show "cellX (cells b' ! j) = cellX (cells b ! j)
                \<and> cellY (cells b' ! j) = cellY (cells b ! j)
                \<and> (isLiving (cells b' ! j)
                     \<longrightarrow> isLiving (cells b ! j) \<or> j < unat (cellCount b - 1))"
          using ih[THEN conjunct2, THEN conjunct2, THEN conjunct2, THEN conjunct2, THEN conjunct2,
              THEN conjunct2, THEN conjunct2, rule_format, OF j1] a b cc1
          by auto
      qed
      have f: "length (cells b1) = length (cells b)" "cellCount b1 = cellCount b"
        "cellsX b1 = cellsX b" "cellsY b1 = cellsY b" "turns b1 = turns b"
        by (simp_all add: b1_def)
      have "length (cells b') = length (cells b)" "cellCount b' = cellCount b"
        "cellsX b' = cellsX b" "cellsY b' = cellsY b" "turns b' = turns b"
        "livingCells b' = word_of_nat (living_count (cells b'))"
        using ih f by simp_all
      then show ?thesis using cnt per by blast
    qed
  qed
qed

lemma uint_of_nat_Suc_neq_0:
  assumes "Suc j < 2 ^ 32"
  shows "(word_of_nat (Suc j) :: uint) \<noteq> 0"
  using of_nat_neq_0[of "Suc j", where 'a = 32] assms by simp

lemma seed_loop_returns:
  assumes "unat (cellCount b) = length (cells b)" and "cellCount b \<noteq> 0"
    and "m + j \<le> unat (cellCount b - 1)"
    and "\<forall>i. m \<le> i \<and> i < m + j \<longrightarrow> \<not> isLiving (cells b ! i)"
  shows "\<exists>b'. seed_loop [m..<m + j] (word_of_nat j) b = Some b'"
  using assms
proof (induction j arbitrary: m b)
  case 0
  then show ?case by simp
next
  case (Suc j)
  have lt32: "unat (cellCount b - 1) < 2 ^ LENGTH(32)" by (rule unsigned_less)
  have kpos: "(word_of_nat (Suc j) :: uint) > 0"
    using uint_of_nat_Suc_neq_0[of j] Suc.prems(3) lt32 by (simp add: uint_pos_iff)
  have mlt: "m < unat (cellCount b - 1)" using Suc.prems(3) by simp
  then have nz: "cellCount b - 1 \<noteq> 0" by (auto simp: unat_gt_0[symmetric])
  have "unat (cellCount b - 1) < unat (cellCount b)" using unat_pred(3)[OF Suc.prems(2)] .
  then have mlen: "m < length (cells b)" using mlt Suc.prems(1) by simp
  have dead: "\<not> isLiving (cells b ! m)" using Suc.prems(4) by simp
  define b1 where "b1 = b\<lparr>livingCells := livingCells b + 1,
          cells := (cells b)[m := (cells b ! m)\<lparr>isLiving := True, cellChanged := True\<rparr>]\<rparr>"
  have lst: "[m..<m + Suc j] = m # [Suc m..<Suc m + j]" by (simp add: upt_conv_Cons)
  have k1: "(word_of_nat (Suc j) :: uint) - 1 = word_of_nat j" by simp
  have step: "seed_loop [m..<m + Suc j] (word_of_nat (Suc j)) b
              = seed_loop [Suc m..<Suc m + j] (word_of_nat j) b1"
    unfolding lst using kpos nz mlt mlen dead k1
    by (simp add: cell_at_def modify_cell_def Let_def b1_def del: of_nat_Suc)
  have p1: "unat (cellCount b1) = length (cells b1)" using Suc.prems(1) by (simp add: b1_def)
  have p2: "cellCount b1 \<noteq> 0" using Suc.prems(2) by (simp add: b1_def)
  have p3: "Suc m + j \<le> unat (cellCount b1 - 1)" using Suc.prems(3) by (simp add: b1_def)
  have p4: "\<forall>i. Suc m \<le> i \<and> i < Suc m + j \<longrightarrow> \<not> isLiving (cells b1 ! i)"
    using Suc.prems(4) by (simp add: b1_def)
  show ?case using Suc.IH[OF p1 p2 p3 p4] step by simp
qed

lemma unat_of_living_count:
  assumes "unat (cellCount b) = length (cells b)"
    and "livingCells b = word_of_nat (living_count (cells b))"
  shows "unat (livingCells b) = living_count (cells b)"
proof -
  have "unat (cellCount b) < 2 ^ LENGTH(32)" by (rule unsigned_less)
  then have "living_count (cells b) < 2 ^ 32"
    using living_count_le[of "cells b"] assms(1) by simp
  then show ?thesis using assms(2) by (simp add: unat_of_nat)
qed

subsection \<open>The number of cells to seed\<close>

lemma bit_length_bounds:
  "0 < n \<Longrightarrow> 2 ^ (bit_length n - 1) \<le> n \<and> n < 2 ^ bit_length n"
proof (induction n rule: bit_length.induct)
  case (1 n)
  show ?case
  proof (cases "n div 2 = 0")
    case True
    then have "n = 1" using 1(2) by auto
    then show ?thesis by (simp add: bit_length.simps)
  next
    case False
    then have pos: "0 < n div 2" by simp
    have ih: "2 ^ (bit_length (n div 2) - 1) \<le> n div 2 \<and> n div 2 < 2 ^ bit_length (n div 2)"
      using 1(1) 1(2) pos by simp
    have bl: "bit_length n = Suc (bit_length (n div 2))"
      using 1(2) by (simp add: bit_length.simps[of n])
    have blpos: "0 < bit_length (n div 2)" using pos by (simp add: bit_length.simps[of "n div 2"])
    then obtain k where k: "bit_length (n div 2) = Suc k" by (cases "bit_length (n div 2)") auto
    have a: "2 ^ k \<le> n div 2" using ih k by simp
    have b: "n div 2 < 2 ^ Suc k" using ih k by simp
    have "2 * 2 ^ k \<le> n" using a by linarith
    moreover have "n < 2 * 2 ^ Suc k" using b by linarith
    ultimately show ?thesis using bl k by simp
  qed
qed

lemma round_error_le:
  fixes P v n e :: nat
  assumes "v \<le> n + e" and "P * e \<le> n"
  shows "P * v \<le> (P + 1) * n"
proof -
  have "P * v \<le> P * (n + e)" using assms(1) by (rule mult_le_mono2)
  also have "\<dots> = P * n + P * e" by (rule distrib_left)
  also have "\<dots> \<le> P * n + n" using assms(2) by simp
  finally show ?thesis by simp
qed

lemma round_error_ge:
  fixes P v n e :: nat
  assumes "n \<le> v + e" and "P * e \<le> n"
  shows "(P - 1) * n \<le> P * v"
proof -
  have "P * n \<le> P * (v + e)" using assms(1) by (rule mult_le_mono2)
  also have "\<dots> = P * v + P * e" by (rule distrib_left)
  also have "\<dots> \<le> P * v + n" using assms(2) by simp
  finally have "P * n - n \<le> P * v" by simp
  then show ?thesis by (simp add: diff_mult_distrib)
qed

text \<open>Rounding to 53 bits changes a number by at most the \<open>2^53\<close>-th part of it.\<close>

lemma double_round_bounds:
  assumes "double_round n = (q, s)"
  shows "2 ^ 53 * (q * 2 ^ s) \<le> (2 ^ 53 + 1) * n \<and> (2 ^ 53 - 1) * n \<le> 2 ^ 53 * (q * 2 ^ s)"
proof (cases "n < 2 ^ 53")
  case True
  then have "q = n" "s = 0" using assms by (simp_all add: double_round_def)
  then have v: "q * 2 ^ s = n" by simp
  have "n \<le> n + 0" "(2::nat) ^ 53 * 0 \<le> n" by simp_all
  from round_error_le[OF this] round_error_ge[OF this] show ?thesis unfolding v by blast
next
  case False
  then have npos: "0 < n" by (cases n) auto
  define r where "r = n mod 2 ^ s"
  define d where "d = n div 2 ^ s"
  define e where "e = (2::nat) ^ (s - 1)"
  have s: "s = bit_length n - 53" using assms False by (simp add: double_round_def Let_def)
  have q: "q = d \<or> q = d + 1" "q = d + 1 \<longrightarrow> e \<le> r" "q = d \<longrightarrow> r \<le> e"
    using assms False s by (auto simp: double_round_def Let_def d_def r_def e_def split: if_splits)
  have bl: "2 ^ (bit_length n - 1) \<le> n" "n < 2 ^ bit_length n"
    using bit_length_bounds[OF npos] by simp_all
  have "(2::nat) ^ 53 \<le> n" using False by simp
  then have "(2::nat) ^ 53 < 2 ^ bit_length n" using bl(2) by (rule le_less_trans)
  then have big: "53 < bit_length n" by (simp only: power_strict_increasing_iff rel_simps)
  then have spos: "0 < s" using s by simp
  have "bit_length n - 1 = 53 + (s - 1)" using big s by simp
  then have "(2::nat) ^ (bit_length n - 1) = 2 ^ 53 * e" unfolding e_def by (simp only: power_add)
  then have half: "2 ^ 53 * e \<le> n" using bl(1) by simp
  have two: "(2::nat) ^ s = e + e" using spos unfolding e_def by (cases s) auto
  have n: "n = d * 2 ^ s + r" unfolding d_def r_def by (rule div_mult_mod_eq[symmetric])
  have rlt: "r < 2 ^ s" by (simp add: r_def)
  have "q * 2 ^ s \<le> n + e \<and> n \<le> q * 2 ^ s + e"
  proof (cases "q = d")
    case True
    then have "r \<le> e" using q(3) by simp
    then show ?thesis using True n by simp
  next
    case False
    then have qd: "q = d + 1" and rge: "e \<le> r" using q by auto
    have "q * 2 ^ s = d * 2 ^ s + 2 ^ s" using qd by (simp add: add_mult_distrib)
    then show ?thesis using n rge rlt two by linarith
  qed
  then have "q * 2 ^ s \<le> n + e" "n \<le> q * 2 ^ s + e" by simp_all
  from round_error_le[OF this(1) half] round_error_ge[OF this(2) half] show ?thesis by blast
qed

text \<open>The errors of two roundings in a row.\<close>

lemma two_roundings_upper:
  fixes P R A1 n1 A2 m q1 e1 :: nat
  assumes "P * A1 \<le> R * n1" and "P * A2 \<le> R * (m * q1)" and "A1 = q1 * e1"
  shows "P * P * (A2 * e1) \<le> R * R * (m * n1)"
proof -
  have "P * P * (A2 * e1) = (P * e1) * (P * A2)" by (simp add: ac_simps)
  also have "\<dots> \<le> (P * e1) * (R * (m * q1))" using assms(2) by (rule mult_le_mono2)
  also have "\<dots> = (R * m) * (P * A1)" unfolding assms(3) by (simp add: ac_simps)
  also have "\<dots> \<le> (R * m) * (R * n1)" using assms(1) by (rule mult_le_mono2)
  also have "\<dots> = R * R * (m * n1)" by (simp add: ac_simps)
  finally show ?thesis .
qed

lemma two_roundings_lower:
  fixes P Q A1 n1 A2 m q1 e1 :: nat
  assumes "Q * n1 \<le> P * A1" and "Q * (m * q1) \<le> P * A2" and "A1 = q1 * e1"
  shows "Q * Q * (m * n1) \<le> P * P * (A2 * e1)"
proof -
  have "Q * Q * (m * n1) = (Q * m) * (Q * n1)" by (simp add: ac_simps)
  also have "\<dots> \<le> (Q * m) * (P * A1)" using assms(1) by (rule mult_le_mono2)
  also have "\<dots> = (P * e1) * (Q * (m * q1))" unfolding assms(3) by (simp add: ac_simps)
  also have "\<dots> \<le> (P * e1) * (P * A2)" using assms(2) by (rule mult_le_mono2)
  also have "\<dots> = P * P * (A2 * e1)" by (simp add: ac_simps)
  finally show ?thesis .
qed

lemma double_trunc_div:
  "double_trunc (q, int s - 59) = (q * 2 ^ s) div 2 ^ 59"
proof (cases "59 \<le> s")
  case True
  then obtain j where j: "s = 59 + j" using le_Suc_ex by blast
  have "double_trunc (q, int s - 59) = q * 2 ^ j" by (simp add: double_trunc_def j)
  moreover have "q * 2 ^ s = (q * 2 ^ j) * 2 ^ 59" unfolding j by (simp only: power_add ac_simps)
  ultimately show ?thesis by (simp only: nonzero_mult_div_cancel_right) simp
next
  case False
  then obtain j where j: "59 = s + j" "0 < j" using less_imp_add_positive[of s 59] by auto
  have "int s - 59 = - int j" using j(1) by simp
  then have "double_trunc (q, int s - 59) = q div 2 ^ j" using j(2) by (simp add: double_trunc_def)
  moreover have "(q * 2 ^ s) div (2 ^ (s + j)) = q div 2 ^ j"
    by (simp only: power_add mult.commute[of q] div_mult2_eq) simp
  ultimately show ?thesis using j(1) by simp
qed

lemma div_bounds:
  fixes a b :: nat
  assumes "0 < b"
  shows "b * (a div b) \<le> a" and "a < b * (a div b) + b"
proof -
  show "b * (a div b) \<le> a" by simp
  have "a mod b < b" using assms by simp
  moreover have "a = b * (a div b) + a mod b" by simp
  ultimately show "a < b * (a div b) + b" by linarith
qed

text \<open>
  For an option \<open>m\<close> that is not negative, the scaled count is defined, and it is the
  integer quotient \<open>m * percent div 100\<close> or one less: the double nearest to \<open>1/100\<close> is
  not \<open>1/100\<close>, and the two products are rounded.
\<close>

lemma cells_to_seed_bounds:
  assumes "0 \<le> m" and "m < 2 ^ 32"
  shows "\<exists>k. cells_to_seed m r = Some k
           \<and> nat m * (r mod 75 + 25) div 100 - 1 \<le> unat k
           \<and> unat k \<le> nat m * (r mod 75 + 25) div 100"
proof -
  define p where "p = r mod 75 + 25"
  define M :: nat where "M = 5764607523034235"
  define P :: nat where "P = 2 ^ 53"
  define n where "n = nat m"
  define t where "t = n * p"
  define d where "d = t div 100"
  obtain q1 s1 where r1: "double_round (p * M) = (q1, s1)" by (cases "double_round (p * M)")
  obtain q2 s2 where r2: "double_round (n * q1) = (q2, s2)" by (cases "double_round (n * q1)")
  define V where "V = q2 * 2 ^ (s1 + s2)"
  define c where "c = V div 2 ^ 59"
  have x: "double_mult (double_of_nat p) DOUBLE_0_01 = (q1, int s1 - 59)"
    using r1 by (simp add: double_mult_def double_of_nat_def DOUBLE_0_01_def M_def)
  have y: "double_mult (double_of_nat n) (q1, int s1 - 59) = (q2, int (s1 + s2) - 59)"
    using r2 by (simp add: double_mult_def double_of_nat_def)
  have tr: "double_trunc (q2, int (s1 + s2) - 59) = c"
    unfolding c_def V_def by (rule double_trunc_div)
  have b1: "P * (q1 * 2 ^ s1) \<le> (P + 1) * (p * M)" "(P - 1) * (p * M) \<le> P * (q1 * 2 ^ s1)"
    using double_round_bounds[OF r1] unfolding P_def by simp_all
  have b2: "P * (q2 * 2 ^ s2) \<le> (P + 1) * (n * q1)" "(P - 1) * (n * q1) \<le> P * (q2 * 2 ^ s2)"
    using double_round_bounds[OF r2] unfolding P_def by simp_all
  have Vs: "q2 * 2 ^ s2 * 2 ^ s1 = V" unfolding V_def by (simp add: power_add ac_simps)
  have U: "P * P * V \<le> ((P + 1) * (P + 1) * M) * t"
  proof -
    have "P * P * (q2 * 2 ^ s2 * 2 ^ s1) \<le> (P + 1) * (P + 1) * (n * (p * M))"
      using b1(1) b2(1) by (rule two_roundings_upper) simp
    also have "\<dots> = ((P + 1) * (P + 1) * M) * t" unfolding t_def by (simp only: ac_simps)
    finally show ?thesis unfolding Vs .
  qed
  have L: "((P - 1) * (P - 1) * M) * t \<le> P * P * V"
  proof -
    have "((P - 1) * (P - 1) * M) * t = (P - 1) * (P - 1) * (n * (p * M))"
      unfolding t_def by (simp only: ac_simps)
    also have "\<dots> \<le> P * P * (q2 * 2 ^ s2 * 2 ^ s1)"
      using b1(2) b2(2) by (rule two_roundings_lower) simp
    finally show ?thesis unfolding Vs .
  qed
  have PP: "P * P = 81129638414606681695789005144064" unfolding P_def by simp
  have RR: "(P + 1) * (P + 1) * M = 467680523945889047406672926918572866729849787515"
    unfolding P_def M_def by simp
  have QQ: "(P - 1) * (P - 1) * M = 467680523945888839714798585525463402054354343035"
    unfolding P_def M_def by simp
  have U': "81129638414606681695789005144064 * V
             \<le> 467680523945889047406672926918572866729849787515 * t"
    using U unfolding PP RR .
  have L': "467680523945888839714798585525463402054354343035 * t
             \<le> 81129638414606681695789005144064 * V"
    using L unfolding PP QQ .
  have "p \<le> 99" unfolding p_def by simp
  moreover have "n < 4294967296" using assms unfolding n_def by simp
  ultimately have "n * p \<le> 4294967296 * 99"
    by (intro mult_mono) simp_all
  then have tb: "t \<le> 425201762304" unfolding t_def by simp
  have dd: "100 * d \<le> t" "t < 100 * d + 100" unfolding d_def by (rule div_bounds, simp)+
  have cc: "576460752303423488 * c \<le> V" "V < 576460752303423488 * c + 576460752303423488"
    using div_bounds[of "2 ^ 59" V] unfolding c_def by simp_all
  have up: "c \<le> d" using U' dd cc tb by linarith
  have lo: "d - 1 \<le> c" using L' dd cc tb by linarith
  have "d < 4294967296" using dd(1) tb by linarith
  then have c32: "c < 2 ^ 32" using up by simp
  have "cells_to_seed m r = Some (word_of_nat c)"
    using assms(1) c32 x y tr
    by (simp add: cells_to_seed_def Let_def p_def[symmetric] n_def[symmetric])
  moreover have "unat (word_of_nat c :: uint) = c" using c32 by (simp add: unat_of_nat)
  ultimately show ?thesis using up lo unfolding d_def t_def n_def p_def by simp
qed

text \<open>Rules that evaluate the arithmetic on numerals.\<close>

lemma bit_length_eval:
  "bit_length 0 = 0" "bit_length (Suc 0) = 1"
  "bit_length (numeral k) = 1 + bit_length (numeral k div 2)"
  by (simp_all add: bit_length.simps[of 0] bit_length.simps[of "numeral k"]
        bit_length.simps[of "Suc 0"])

lemmas double_eval = cells_to_seed_def double_trunc_def double_mult_def double_of_nat_def
  DOUBLE_0_01_def double_round_def Let_def bit_length_eval

lemma cells_to_seed_default:
  "cells_to_seed (maximumFitCellsForRandom default_options) 0 = Some 2"
  by (simp add: default_options_def double_eval)

text \<open>An option of 100 and 29 percent give 28 cells, one less than the quotient.\<close>

lemma cells_to_seed_one_less: "cells_to_seed 100 4 = Some 28"
  by (simp add: double_eval)

lemma initRandomBoard_unfold:
  assumes "cells_to_seed (maximumFitCellsForRandom opts) r = Some k"
  shows "initRandomBoard (r # rs) b opts
         = (case resetPlayboard b of None \<Rightarrow> None | Some b0 \<Rightarrow> seed_loop rs k b0)"
  using assms by (simp add: initRandomBoard_def split: option.splits)

text \<open>
  Claim C4, amended. The count that the loop works off is not the option
  \<open>maximumFitCellsForRandom\<close> itself but the option scaled by a random percentage from 25
  to 99: \<open>k = cells_to_seed m r\<close> for the option \<open>m\<close> and the first draw \<open>r\<close>, which is
  \<open>m * percent div 100\<close> or one less and so below \<open>m\<close>. For a board with as many cells as
  \<open>cellCount\<close> says and \<open>0 < m < cellCount\<close>: whatever the further draws are, when
  \<open>initRandomBoard\<close> returns, exactly \<open>k\<close> cells of the board (which it resets first) are
  alive and \<open>livingCells\<close> is \<open>k\<close>; and there are draws with which it returns. The loop
  draws until \<open>k\<close> dead cells have been turned alive; with draws that keep hitting living
  cells it does not return, which is the result \<open>None\<close>. How the draws are distributed is
  outside the model.
\<close>

theorem initRandomBoard_count:
  assumes len: "unat (cellCount b) = length (cells b)"
    and pos: "0 < maximumFitCellsForRandom opts"
    and lt: "maximumFitCellsForRandom opts < int (length (cells b))"
  shows "\<exists>k. cells_to_seed (maximumFitCellsForRandom opts) r = Some k
           \<and> nat (maximumFitCellsForRandom opts) * (r mod 75 + 25) div 100 - 1 \<le> unat k
           \<and> unat k \<le> nat (maximumFitCellsForRandom opts) * (r mod 75 + 25) div 100
           \<and> unat k < nat (maximumFitCellsForRandom opts)
           \<and> (\<forall>rs b'. initRandomBoard (r # rs) b opts = Some b'
                  \<longrightarrow> living_count (cells b') = unat k \<and> livingCells b' = k
                      \<and> length (cells b') = length (cells b))
           \<and> (\<exists>rs b'. initRandomBoard (r # rs) b opts = Some b')"
proof -
  define m where "m = maximumFitCellsForRandom opts"
  define p where "p = r mod 75 + 25"
  have "unat (cellCount b) < 2 ^ LENGTH(32)" by (rule unsigned_less)
  then have "length (cells b) < 2 ^ 32" using len by simp
  then have m32: "m < 2 ^ 32" using lt unfolding m_def by simp
  have m0: "0 \<le> m" using pos unfolding m_def by simp
  obtain k where k: "cells_to_seed m r = Some k" "nat m * p div 100 - 1 \<le> unat k"
    "unat k \<le> nat m * p div 100"
    using cells_to_seed_bounds[OF m0 m32, of r] unfolding p_def by blast
  have "p \<le> 99" unfolding p_def by simp
  then have "nat m * p \<le> nat m * 99" by simp
  then have "nat m * p div 100 \<le> nat m * 99 div 100" by (rule div_le_mono)
  moreover have "nat m * 99 div 100 < nat m"
    using pos unfolding m_def by (simp add: div_less_iff_less_mult)
  ultimately have klt: "unat k < nat m" using k(3) by linarith
  obtain b0 where r: "resetPlayboard b = Some b0" "length (cells b0) = length (cells b)"
    "cellCount b0 = cellCount b" "livingCells b0 = 0"
    "\<forall>j<length (cells b).
        cells b0 ! j = (cells b ! j)\<lparr>isLiving := False, cellChanged := False\<rparr>"
    "living_count (cells b0) = 0"
    using resetPlayboard_result[OF len] by blast
  have unf: "initRandomBoard (r # rs) b opts = seed_loop rs k b0" for rs
    using initRandomBoard_unfold[of opts r k rs b] k(1) r(1) unfolding m_def by simp
  have p1: "unat (cellCount b0) = length (cells b0)" using r(2,3) len by simp
  have p2: "livingCells b0 = word_of_nat (living_count (cells b0))" using r(4,6) by simp
  have part1: "\<forall>rs b'. initRandomBoard (r # rs) b opts = Some b'
            \<longrightarrow> living_count (cells b') = unat k \<and> livingCells b' = k
                \<and> length (cells b') = length (cells b)"
  proof (intro allI impI)
    fix rs b' assume "initRandomBoard (r # rs) b opts = Some b'"
    then have s: "seed_loop rs k b0 = Some b'" using unf by simp
    have res: "length (cells b') = length (cells b0)"
      "livingCells b' = word_of_nat (living_count (cells b'))"
      "living_count (cells b') = living_count (cells b0) + unat k"
      using seed_loop_result[OF p1 p2 s] by simp_all
    show "living_count (cells b') = unat k \<and> livingCells b' = k
                \<and> length (cells b') = length (cells b)"
      using res r(2,6) by simp
  qed
  have cells: "unat k < length (cells b)" using klt lt unfolding m_def by linarith
  then have nz: "cellCount b0 \<noteq> 0" using r(3) len by auto
  have "unat k < unat (cellCount b0)" using cells r(3) len by simp
  then have p3: "0 + unat k \<le> unat (cellCount b0 - 1)" using unat_pred(1)[OF nz] by simp
  have p4: "\<forall>i. 0 \<le> i \<and> i < 0 + unat k \<longrightarrow> \<not> isLiving (cells b0 ! i)"
  proof (intro allI impI)
    fix i assume "0 \<le> i \<and> i < 0 + unat k"
    then have "i < length (cells b)" using cells by simp
    then show "\<not> isLiving (cells b0 ! i)" using r(5) by simp
  qed
  obtain b' where "seed_loop [0..<0 + unat k] (word_of_nat (unat k)) b0 = Some b'"
    using seed_loop_returns[OF p1 nz p3 p4] by blast
  then have "initRandomBoard (r # [0..<unat k]) b opts = Some b'"
    using unf by simp
  then have part2: "\<exists>rs b'. initRandomBoard (r # rs) b opts = Some b'" by blast
  show ?thesis
    using k klt part1 part2 unfolding m_def p_def by blast
qed

theorem initRandomBoard_count_witness:
  "unat (cellCount (main_board 5)) = length (cells (main_board 5))
   \<and> 0 < maximumFitCellsForRandom default_options
   \<and> maximumFitCellsForRandom default_options < int (length (cells (main_board 5)))
   \<and> cells_to_seed (maximumFitCellsForRandom default_options) 0 = Some 2
   \<and> cells_to_seed 100 4 = Some 28
   \<and> map_option (\<lambda>b. (living_count (cells b), livingCells b))
        (initRandomBoard [0, 7, 31, 7, 50] (main_board 5) default_options) = Some (2, 2)"
proof -
  have h: "unat (cellCount (main_board 5)) = length (cells (main_board 5))" by code_simp
  have m: "0 < maximumFitCellsForRandom default_options"
    "maximumFitCellsForRandom default_options < int (length (cells (main_board 5)))"
    by code_simp+
  have u: "initRandomBoard [0, 7, 31, 7, 50] (main_board 5) default_options
           = (case resetPlayboard (main_board 5) of
                None \<Rightarrow> None | Some b0 \<Rightarrow> seed_loop [7, 31, 7, 50] 2 b0)"
    using cells_to_seed_default by (rule initRandomBoard_unfold)
  have "(case resetPlayboard (main_board 5) of
                None \<Rightarrow> None | Some b0 \<Rightarrow> seed_loop [7, 31, 7, 50] 2 b0) \<noteq> None"
    by code_simp
  then obtain b' where b': "initRandomBoard [0, 7, 31, 7, 50] (main_board 5) default_options = Some b'"
    using u by auto
  from initRandomBoard_count[OF h m, of 0] cells_to_seed_default b'
  have "living_count (cells b') = unat (2::uint) \<and> livingCells b' = 2" by auto
  then show ?thesis using h m cells_to_seed_default cells_to_seed_one_less b' by simp
qed

theorem initRandomBoard_count_counterexample:
  "maximumFitCellsForRandom default_options = 10
   \<and> cellCount (main_board 5) = 25
   \<and> map_option (living_count \<circ> cells)
        (initRandomBoard [0, 7, 31, 7, 50] (main_board 5) default_options) = Some 2
   \<and> map_option livingCells
        (initRandomBoard [0, 7, 31, 7, 50] (main_board 5) default_options) = Some 2"
proof -
  have u: "initRandomBoard [0, 7, 31, 7, 50] (main_board 5) default_options
           = (case resetPlayboard (main_board 5) of
                None \<Rightarrow> None | Some b0 \<Rightarrow> seed_loop [7, 31, 7, 50] 2 b0)"
    using cells_to_seed_default by (rule initRandomBoard_unfold)
  have a: "maximumFitCellsForRandom default_options = 10" "cellCount (main_board 5) = 25"
    by code_simp+
  have "map_option (living_count \<circ> cells)
          (case resetPlayboard (main_board 5) of
             None \<Rightarrow> None | Some b0 \<Rightarrow> seed_loop [7, 31, 7, 50] 2 b0) = Some 2"
    "map_option livingCells
          (case resetPlayboard (main_board 5) of
             None \<Rightarrow> None | Some b0 \<Rightarrow> seed_loop [7, 31, 7, 50] 2 b0) = Some 2"
    by code_simp+
  then show ?thesis using a unfolding u by simp
qed

subsection \<open>Image ingestion\<close>

lemma u32_id: "0 \<le> i \<Longrightarrow> i < 4294967296 \<Longrightarrow> u32 i = nat i"
  by (simp add: u32_def)

text \<open>The cell index that one pass of the ingestion loop writes, and the state it
  continues with.\<close>

lemma ingest_step_shape:
  fixes s opts xp yp wx wy row idx b
  defines "ov \<equiv> u32 (int wx + int xp) > surface_w s"
  defines "wx1 \<equiv> (if ov then xp else u32 (int wx + int xp))"
  defines "wy1 \<equiv> (if ov then u32 (int wy + int yp) else wy)"
  defines "row1 \<equiv> (if ov then row + 1 else row)"
  defines "idx1 \<equiv> (if ov then u32 (row1 * cellsX b - row1) else idx)"
  assumes "ingest_step s opts xp yp (wx, wy, row, idx, b) = Some r"
  shows "(r = Inr b)
         \<or> (\<exists>b'. (b' = b \<or> modify_cell idx1 (\<lambda>c. c\<lparr>isLiving := True, cellChanged := True\<rparr>)
                               (b\<lparr>livingCells := livingCells b + 1\<rparr>) = Some b')
              \<and> (if u32 (int idx1 + 1) \<ge> unat (cellCount b' - 1) then r = Inr b'
                  else r = Inl (wx1, wy1, row1, u32 (int idx1 + 1), b')))"
  using assms(6)
  unfolding ingest_step_def Let_def fst_conv snd_conv ov_def[symmetric]
  unfolding wx1_def[symmetric] wy1_def[symmetric] row1_def[symmetric]
  unfolding idx1_def[symmetric]
  by (auto split: if_splits option.splits)

lemma blocks_per_row:
  fixes q xp cx W :: nat
  assumes "cx * xp \<le> W" and "W < q * xp + xp"
  shows "cx \<le> q"
proof (rule ccontr)
  assume "\<not> cx \<le> q"
  then have "Suc q \<le> cx" by simp
  then have "Suc q * xp \<le> cx * xp" by (rule mult_le_mono1)
  then show False using assms by simp
qed

lemma ingest_step_inv:
  assumes W: "surface_w s < 2 ^ 31" and xp: "1 \<le> xp" and cx: "1 \<le> cx"
    and fit: "nat cx * xp \<le> surface_w s" and cc: "cc \<noteq> 0"
    and inv: "ingest_inv s xp cc cx (wx, wy, row, idx, b)"
    and step: "ingest_step s opts xp yp (wx, wy, row, idx, b) = Some r"
  shows "case r of
           Inl st' \<Rightarrow> ingest_inv s xp cc cx st'
         | Inr b' \<Rightarrow> length (cells b') = unat cc \<and> \<not> isLiving (cells b' ! (unat cc - 1))"
proof -
  have i: "cellCount b = cc" "cellsX b = cx" "length (cells b) = unat cc"
    "idx < unat (cc - 1)" "\<not> isLiving (cells b ! (unat cc - 1))"
    "0 \<le> row" "int idx = row * (cx - 1) + int (wx div xp)" "xp dvd wx" "wx \<le> surface_w s"
    using inv by (simp_all add: ingest_inv_def)
  have last: "unat (cc - 1) = unat cc - 1" "unat (cc - 1) < unat cc"
    using unat_pred[OF cc] by simp_all
  have lt32: "unat (cc - 1) < 2 ^ 32" using unsigned_less[of "cc - 1"] by simp
  have xpW: "xp \<le> surface_w s"
  proof -
    have "1 \<le> nat cx" using cx by simp
    then have "1 * xp \<le> nat cx * xp" by (rule mult_le_mono1)
    then have "xp \<le> nat cx * xp" by (simp only: mult_1)
    then show ?thesis using fit by (rule le_trans)
  qed
  have sum32: "u32 (int wx + int xp) = wx + xp"
    using i(9) xpW W by (simp add: u32_def)
  define ov where "ov \<longleftrightarrow> u32 (int wx + int xp) > surface_w s"
  define wx1 where "wx1 = (if ov then xp else u32 (int wx + int xp))"
  define wy1 where "wy1 = (if ov then u32 (int wy + int yp) else wy)"
  define row1 where "row1 = (if ov then row + 1 else row)"
  define idx1 where "idx1 = (if ov then u32 (row1 * cellsX b - row1) else idx)"
  have idx1: "idx1 \<le> idx \<and> int idx1 = row1 * (cx - 1) + int (wx1 div xp) - 1"
  proof (cases ov)
    case False
    then have "wx1 = wx + xp" "row1 = row" "idx1 = idx"
      by (simp_all add: wx1_def row1_def idx1_def sum32)
    moreover have "(wx + xp) div xp = wx div xp + 1"
      using xp div_add_self2[of xp wx] by simp
    ultimately show ?thesis using i(7) by simp
  next
    case True
    obtain q where q: "wx = q * xp" using i(8) by (auto simp: dvd_def mult.commute)
    have qd: "wx div xp = q" using q xp by simp
    have "surface_w s < wx + xp" using True by (simp add: ov_def sum32)
    then have "surface_w s < q * xp + xp" by (simp only: q)
    then have "nat cx \<le> q" using blocks_per_row[OF fit] by simp
    then have cq: "cx \<le> int q" using cx by simp
    have r1: "row1 = row + 1" and w1: "wx1 = xp" using True by (simp_all add: row1_def wx1_def)
    have e: "row1 * cellsX b - row1 = row * (cx - 1) + (cx - 1)"
      by (simp add: r1 i(2) algebra_simps)
    have nonneg: "0 \<le> row * (cx - 1) + (cx - 1)" using i(6) cx by simp
    have le: "row * (cx - 1) + (cx - 1) \<le> int idx - 1" using i(7) qd cq by simp
    have "row * (cx - 1) + (cx - 1) < 4294967296" using le i(4) lt32 by simp
    then have "idx1 = nat (row * (cx - 1) + (cx - 1))"
      using True nonneg by (simp add: idx1_def e u32_id)
    then have v: "int idx1 = row * (cx - 1) + (cx - 1)" using nonneg by simp
    have "xp div xp = 1" using xp by simp
    then have "int idx1 = row1 * (cx - 1) + int (wx1 div xp) - 1"
      using v by (simp add: r1 w1 algebra_simps)
    moreover have "idx1 \<le> idx" using v le by linarith
    ultimately show ?thesis by simp
  qed
  have row1: "0 \<le> row1" using i(6) by (simp add: row1_def)
  have wx1: "xp dvd wx1 \<and> wx1 \<le> surface_w s"
    using i(8,9) xpW by (auto simp: wx1_def ov_def sum32)
  have idxle: "idx1 \<le> idx" using idx1 by simp
  have next32: "u32 (int idx1 + 1) = idx1 + 1"
    using idxle i(4) lt32 by (simp add: u32_def)
  have idxlt: "idx1 < unat cc - 1" using idxle i(4) last by simp
  from ingest_step_shape[OF step]
  consider "r = Inr b"
    | b' where "b' = b \<or> modify_cell idx1 (\<lambda>c. c\<lparr>isLiving := True, cellChanged := True\<rparr>)
                               (b\<lparr>livingCells := livingCells b + 1\<rparr>) = Some b'"
      and "if u32 (int idx1 + 1) \<ge> unat (cellCount b' - 1) then r = Inr b'
           else r = Inl (wx1, wy1, row1, u32 (int idx1 + 1), b')"
    unfolding ov_def wx1_def wy1_def row1_def idx1_def by blast
  then show ?thesis
  proof cases
    case 1
    then show ?thesis using i(3,5) by simp
  next
    case (2 b')
    have keep: "cellCount b' = cc \<and> cellsX b' = cx \<and> length (cells b') = unat cc
        \<and> \<not> isLiving (cells b' ! (unat cc - 1))"
      using 2(1)
    proof
      assume "b' = b"
      then show ?thesis using i by simp
    next
      assume "modify_cell idx1 (\<lambda>c. c\<lparr>isLiving := True, cellChanged := True\<rparr>)
                               (b\<lparr>livingCells := livingCells b + 1\<rparr>) = Some b'"
      then have "b' = b\<lparr>livingCells := livingCells b + 1,
          cells := (cells b)[idx1 := (cells b ! idx1)\<lparr>isLiving := True, cellChanged := True\<rparr>]\<rparr>"
        by (auto simp: modify_cell_def split: if_splits)
      then show ?thesis using i idxlt by simp
    qed
    show ?thesis
    proof (cases "u32 (int idx1 + 1) \<ge> unat (cellCount b' - 1)")
      case True
      then have "r = Inr b'" using 2(2) by simp
      then show ?thesis using keep by simp
    next
      case False
      then have r: "r = Inl (wx1, wy1, row1, idx1 + 1, b')" using 2(2) next32 by simp
      have "idx1 + 1 < unat (cc - 1)" using False keep next32 by simp
      moreover have "int (idx1 + 1) = row1 * (cx - 1) + int (wx1 div xp)" using idx1 by simp
      ultimately show ?thesis using r keep row1 wx1 by (simp add: ingest_inv_def)
    qed
  qed
qed

lemma ingest_loop_last_dead:
  assumes run: "ingest_loop s opts xp yp st = Some b'"
    and "surface_w s < 2 ^ 31" "1 \<le> xp" "1 \<le> cx" "nat cx * xp \<le> surface_w s" "cc \<noteq> 0"
    and "ingest_inv s xp cc cx st"
  shows "length (cells b') = unat cc \<and> \<not> isLiving (cells b' ! (unat cc - 1))"
proof -
  let ?P = "\<lambda>(s::SDL_Surface) (opts::options) (xp::nat) (yp::nat) (st::ingest_state) b'.
      surface_w s < 2 ^ 31 \<longrightarrow> 1 \<le> xp \<longrightarrow> nat cx * xp \<le> surface_w s
      \<longrightarrow> ingest_inv s xp cc cx st
      \<longrightarrow> length (cells b') = unat cc \<and> \<not> isLiving (cells b' ! (unat cc - 1))"
  have "?P s opts xp yp st b'"
  proof (rule ingest_loop.raw_induct[where P = ?P, OF _ run])
    fix loop s opts xp yp st b'
    assume IH: "\<And>s opts xp yp st b'. loop s opts xp yp st = Some b' \<Longrightarrow> ?P s opts xp yp st b'"
      and eq: "(case ingest_step s opts xp yp st of
                  None \<Rightarrow> None
                | Some (Inl st') \<Rightarrow> loop s opts xp yp st'
                | Some (Inr gameBoard) \<Rightarrow> Some gameBoard) = Some b'"
    show "?P s opts xp yp st b'"
    proof (intro impI)
      assume W: "surface_w s < 2 ^ 31" and xp: "1 \<le> xp"
        and fit: "nat cx * xp \<le> surface_w s" and inv: "ingest_inv s xp cc cx st"
      obtain wx wy row idx b where st: "st = (wx, wy, row, idx, b)" by (cases st) auto
      from eq obtain r where step: "ingest_step s opts xp yp st = Some r"
        by (cases "ingest_step s opts xp yp st") auto
      have post: "case r of
             Inl st' \<Rightarrow> ingest_inv s xp cc cx st'
           | Inr b' \<Rightarrow> length (cells b') = unat cc \<and> \<not> isLiving (cells b' ! (unat cc - 1))"
        using ingest_step_inv[OF W xp assms(4) fit assms(6) inv[unfolded st] step[unfolded st]] .
      show "length (cells b') = unat cc \<and> \<not> isLiving (cells b' ! (unat cc - 1))"
      proof (cases r)
        case (Inl st')
        then have "loop s opts xp yp st' = Some b'" using eq step by simp
        moreover have "ingest_inv s xp cc cx st'" using post Inl by simp
        ultimately show ?thesis using IH W xp fit by blast
      next
        case (Inr b'')
        then have "b'' = b'" using eq step by simp
        then show ?thesis using post Inr by simp
      qed
    qed
  qed
  then show ?thesis using assms(2-) by blast
qed

lemma generateCellMapFromImage_last_dead:
  assumes len: "unat (cellCount b) = length (cells b)" and two: "2 \<le> length (cells b)"
    and W: "surface_w s < 2 ^ 31"
    and res: "generateCellMapFromImage s b opts = Some (True, b', opts')"
  shows "length (cells b') = length (cells b) \<and> \<not> isLiving (cells b' ! (length (cells b) - 1))"
proof -
  define xp where "xp = surface_w s div nat (cellsX b)"
  define yp where "yp = surface_h s div nat (cellsY b)"
  have c1: "\<not> BitsPerPixel (format s) < 32" using res
    by (auto simp: generateCellMapFromImage_def split: if_splits option.splits)
  have c2: "\<not> (cellsX b \<le> 0 \<or> cellsY b \<le> 0)" using res c1
    by (auto simp: generateCellMapFromImage_def split: if_splits)
  have c3: "\<not> (xp < 1 \<or> yp < 1)" using res c1 c2
    by (auto simp: generateCellMapFromImage_def Let_def xp_def yp_def
        split: if_splits option.splits)
  obtain b0 where r: "resetPlayboard b = Some b0" "length (cells b0) = length (cells b)"
    "cellsX b0 = cellsX b" "cellCount b0 = cellCount b"
    "\<forall>j<length (cells b).
        cells b0 ! j = (cells b ! j)\<lparr>isLiving := False, cellChanged := False\<rparr>"
    using resetPlayboard_result[OF len] by blast
  have loop: "ingest_loop s opts xp yp (0, yp, 0, 0, b0) = Some b'"
    using res c1 c2 c3 r(1)
    by (auto simp: generateCellMapFromImage_def Let_def xp_def yp_def split: option.splits)
  have cc: "cellCount b \<noteq> 0" using len two by auto
  have last: "unat (cellCount b - 1) = unat (cellCount b) - 1" using unat_pred(1)[OF cc] .
  have inv: "ingest_inv s xp (cellCount b) (cellsX b) (0, yp, 0, 0, b0)"
    using r len two last by (simp add: ingest_inv_def)
  have fit: "nat (cellsX b) * xp \<le> surface_w s" by (simp add: xp_def)
  have "length (cells b') = unat (cellCount b)
        \<and> \<not> isLiving (cells b' ! (unat (cellCount b) - 1))"
    using ingest_loop_last_dead[OF loop W _ _ fit cc inv] c2 c3 by simp
  then show ?thesis using len by simp
qed

lemma seed_loop_last_dead:
  assumes len: "unat (cellCount b) = length (cells b)" and two: "2 \<le> length (cells b)"
    and reset: "resetPlayboard b = Some b0" and s: "seed_loop draws k b0 = Some b'"
  shows "length (cells b') = length (cells b) \<and> \<not> isLiving (cells b' ! (length (cells b) - 1))"
proof -
  have r: "resetPlayboard b = Some b0" "length (cells b0) = length (cells b)"
    "cellCount b0 = cellCount b" "livingCells b0 = 0"
    "\<forall>j<length (cells b).
        cells b0 ! j = (cells b ! j)\<lparr>isLiving := False, cellChanged := False\<rparr>"
    "living_count (cells b0) = 0"
    using resetPlayboard_result[OF len] reset by auto
  have p1: "unat (cellCount b0) = length (cells b0)" using r(2,3) len by simp
  have p2: "livingCells b0 = word_of_nat (living_count (cells b0))" using r(4,6) by simp
  have cc: "cellCount b \<noteq> 0" using len two by auto
  have last: "unat (cellCount b - 1) = length (cells b) - 1"
    using unat_pred(1)[OF cc] len by simp
  have l: "length (cells b') = length (cells b0)"
    and a: "\<forall>j<length (cells b0). isLiving (cells b' ! j)
                     \<longrightarrow> isLiving (cells b0 ! j) \<or> j < unat (cellCount b0 - 1)"
    using seed_loop_result[OF p1 p2 s] by simp_all
  have "length (cells b) - 1 < length (cells b)" using two by simp
  then have "\<not> isLiving (cells b' ! (length (cells b) - 1))"
    using a r(2,3,5) last by auto
  then show ?thesis using l r(2) by simp
qed

lemma initRandomBoard_last_dead:
  assumes len: "unat (cellCount b) = length (cells b)" and two: "2 \<le> length (cells b)"
    and res: "initRandomBoard draws b opts = Some b'"
  shows "length (cells b') = length (cells b) \<and> \<not> isLiving (cells b' ! (length (cells b) - 1))"
proof -
  obtain b0 rs k where "resetPlayboard b = Some b0" "seed_loop rs k b0 = Some b'"
    using res by (auto simp: initRandomBoard_def split: list.splits option.splits)
  then show ?thesis by (rule seed_loop_last_dead[OF len two])
qed

text \<open>
  Claim C10. On a board with at least two cells, as many as \<open>cellCount\<close> says, the cell
  at the highest offset \<open>cellCount - 1\<close> is dead after \<open>initRandomBoard\<close>, whatever the
  draws and the options, and after every successful \<open>generateCellMapFromImage\<close> (for a
  surface whose width fits the C type \<^verbatim>\<open>int\<close>): the random index is a remainder modulo
  \<open>cellCount - 1\<close>, and the ingestion loop leaves as soon as the index reaches
  \<open>cellCount - 1\<close>. For the seeding this does not depend on the count the loop starts
  with: it holds for the loop on the reset board with every count.
\<close>

theorem last_cell_stays_dead:
  assumes "unat (cellCount b) = length (cells b)" and "2 \<le> length (cells b)"
  shows "(\<forall>draws opts b'. initRandomBoard draws b opts = Some b'
            \<longrightarrow> \<not> isLiving (cells b' ! (length (cells b) - 1)))
         \<and> (\<forall>draws k b0 b'. resetPlayboard b = Some b0 \<longrightarrow> seed_loop draws k b0 = Some b'
            \<longrightarrow> \<not> isLiving (cells b' ! (length (cells b) - 1)))
         \<and> (\<forall>s opts b' opts'. surface_w s < 2 ^ 31
              \<longrightarrow> generateCellMapFromImage s b opts = Some (True, b', opts')
              \<longrightarrow> \<not> isLiving (cells b' ! (length (cells b) - 1)))"
  using initRandomBoard_last_dead[OF assms] seed_loop_last_dead[OF assms]
    generateCellMapFromImage_last_dead[OF assms]
  by blast

theorem last_cell_stays_dead_witness:
  "unat (cellCount (main_board 5)) = length (cells (main_board 5))
   \<and> 2 \<le> length (cells (main_board 5))
   \<and> (\<exists>b' opts'. generateCellMapFromImage black_image (main_board 5) default_options
                    = Some (True, b', opts')
                  \<and> \<not> isLiving (cells b' ! 24))
   \<and> (\<exists>b'. initRandomBoard [0, 23, 47, 24] (main_board 5) default_options = Some b'
           \<and> \<not> isLiving (cells b' ! 24))"
proof -
  have h: "unat (cellCount (main_board 5)) = length (cells (main_board 5))"
    "2 \<le> length (cells (main_board 5))" by code_simp+
  have len: "length (cells (main_board 5)) - 1 = 24" by code_simp
  have W: "surface_w black_image < 2 ^ 31" by (simp add: black_image_def)
  have "map_option fst (generateCellMapFromImage black_image (main_board 5) default_options)
        = Some True" by code_simp
  then obtain b' opts' where
    g: "generateCellMapFromImage black_image (main_board 5) default_options = Some (True, b', opts')"
    by (cases "generateCellMapFromImage black_image (main_board 5) default_options") auto
  have u: "initRandomBoard [0, 23, 47, 24] (main_board 5) default_options
           = (case resetPlayboard (main_board 5) of
                None \<Rightarrow> None | Some b0 \<Rightarrow> seed_loop [23, 47, 24] 2 b0)"
    using cells_to_seed_default by (rule initRandomBoard_unfold)
  have "(case resetPlayboard (main_board 5) of
                None \<Rightarrow> None | Some b0 \<Rightarrow> seed_loop [23, 47, 24] 2 b0) \<noteq> None"
    by code_simp
  then obtain b'' where r: "initRandomBoard [0, 23, 47, 24] (main_board 5) default_options = Some b''"
    using u by auto
  from last_cell_stays_dead[OF h] W g r
  have "\<not> isLiving (cells b' ! (length (cells (main_board 5)) - 1))"
    "\<not> isLiving (cells b'' ! (length (cells (main_board 5)) - 1))"
    by blast+
  then show ?thesis using h g r len by simp
qed

text \<open>
  Claim C3, evaluated. The board is the 5 by 5 board of \<^verbatim>\<open>main\<close>, the image 5 by 5 opaque
  black pixels, so that each cell has a block of one pixel and, by the rule of the claim,
  every cell is alive. The code returns success with the cells at offsets 21 to 24 (grid
  positions \<open>(1, 4)\<close> to \<open>(4, 4)\<close>) dead, and with \<open>livingCells = 25\<close> for 21 living cells:
  each new row starts at index \<open>row * cellsX - row\<close>, one cell too early per row, and the
  loop leaves before the last cell.
\<close>

theorem ingestion_black_image:
  "map_option fst (generateCellMapFromImage black_image (main_board 5) default_options)
   = Some True
   \<and> map_option (map isLiving \<circ> cells \<circ> fst \<circ> snd)
         (generateCellMapFromImage black_image (main_board 5) default_options)
       = Some (replicate 21 True @ replicate 4 False)
   \<and> map_option (livingCells \<circ> fst \<circ> snd)
         (generateCellMapFromImage black_image (main_board 5) default_options) = Some 25
   \<and> spec_cell_alive black_image default_options 1 1 4 4"
  by code_simp

lemma generateCellMapFromImage_few_bits:
  assumes "BitsPerPixel (format s) < 32"
  shows "generateCellMapFromImage s b opts
         = Some (False, b, opts\<lparr>message := ''Only 32 bit png images are supported.'',
                                hasMessage := True, messageTicks := 50\<rparr>)"
  using assms by (simp add: generateCellMapFromImage_def set_options_message_def)

lemma ratio_message_overflow:
  "set_options_message opts
     ''Image pixel size should be bigger then x and y count of the conway cells.'' = None"
  by (simp add: set_options_message_def)

lemma generateCellMapFromImage_small_image:
  assumes "\<not> BitsPerPixel (format s) < 32" and "0 < cellsX b" and "0 < cellsY b"
    and "surface_w s div nat (cellsX b) < 1 \<or> surface_h s div nat (cellsY b) < 1"
  shows "generateCellMapFromImage s b opts = None"
  using assms by (auto simp: generateCellMapFromImage_def ratio_message_overflow Let_def)

text \<open>
  Claim C8, evaluated. The board is the 5 by 5 board of \<^verbatim>\<open>main\<close>, the image has 32 bits
  per pixel and 4 by 4 pixels, so that the floored ratios are 0. The message of this
  failure has 73 characters, and \<^verbatim>\<open>sprintf\<close> writes 74 bytes into \<^verbatim>\<open>message[64]\<close>: the call
  of \<^verbatim>\<open>set_options_message\<close> has no defined result, and neither has
  \<^verbatim>\<open>generateCellMapFromImage\<close>, where the claim has a plain failure that leaves the board
  alone. The other failure of the claim is as it says: for the black image declared with
  24 bits per pixel the function returns \<^verbatim>\<open>false\<close>, the board it was given and the options
  with the message set, whose 37 characters fit.
\<close>

theorem ingestion_message_overflow:
  "length ''Image pixel size should be bigger then x and y count of the conway cells.'' = 73
   \<and> sprintf_text ''Image pixel size should be bigger then x and y count of the conway cells.''
       = Some ''Image pixel size should be bigger then x and y count of the conway cells.''
   \<and> set_options_message default_options
         ''Image pixel size should be bigger then x and y count of the conway cells.'' = None
   \<and> BitsPerPixel (format small_image) = 32
   \<and> surface_w small_image div nat (cellsX (main_board 5)) = 0
   \<and> generateCellMapFromImage small_image (main_board 5) default_options = None
   \<and> generateCellMapFromImage rgb_image blinker_board default_options
       = Some (False, blinker_board,
               default_options\<lparr>message := ''Only 32 bit png images are supported.'',
                                hasMessage := True, messageTicks := 50\<rparr>)"
  by code_simp

subsection \<open>Recording a turn\<close>

lemma record_cells_result:
  assumes "\<forall>i\<in>set is. i < length (cells b)"
  shows "\<exists>t'. record_cells b is t = Some t'
           \<and> state t' = state t @ map (\<lambda>i. cell_status (cells b ! i))
                                    (filter (\<lambda>i. interesting (cells b ! i)) is)
           \<and> index t' = index t
                @ map (\<lambda>i. word_of_int (cellX (cells b ! i) + cellY (cells b ! i) * cellsX b))
                    (filter (\<lambda>i. interesting (cells b ! i)) is)
           \<and> records t' = records t
                + word_of_nat (length (filter (\<lambda>i. interesting (cells b ! i)) is))"
  using assms
proof (induction "is" arbitrary: t)
  case Nil
  then show ?case by simp
next
  case (Cons i "is")
  have i: "i < length (cells b)" and rest: "\<forall>k\<in>set is. k < length (cells b)"
    using Cons.prems by simp_all
  define c where "c = cells b ! i"
  define t1 where "t1 =
    (if cellChanged c
             then
               (let t1 = t\<lparr>index := index t @ [word_of_int (cellX c + cellY c * cellsX b)]\<rparr>;
                    t2 = (if isLiving c
                          then t1\<lparr>countBorn := countBorn t1 + 1, state := state t1 @ [BORN]\<rparr>
                          else t1\<lparr>countDeath := countDeath t1 + 1, state := state t1 @ [DEAD]\<rparr>)
                in t2\<lparr>records := records t2 + 1\<rparr>)
             else if isLiving c
             then t\<lparr>state := state t @ [STABLE],
                    index := index t @ [word_of_int (cellX c + cellY c * cellsX b)],
                    countStable := countStable t + 1,
                    records := records t + 1\<rparr>
             else t)"
  have step: "record_cells b (i # is) t = record_cells b is t1"
    using i by (simp add: cell_at_def t1_def c_def)
  have t1: "state t1 = state t @ (if interesting c then [cell_status c] else [])"
    "index t1 = index t
       @ (if interesting c then [word_of_int (cellX c + cellY c * cellsX b)] else [])"
    "records t1 = records t + (if interesting c then 1 else 0)"
    by (simp_all add: t1_def interesting_def cell_status_def Let_def)
  obtain t' where r: "record_cells b is t1 = Some t'"
    "state t' = state t1 @ map (\<lambda>i. cell_status (cells b ! i))
                                    (filter (\<lambda>i. interesting (cells b ! i)) is)"
    "index t' = index t1
                @ map (\<lambda>i. word_of_int (cellX (cells b ! i) + cellY (cells b ! i) * cellsX b))
                    (filter (\<lambda>i. interesting (cells b ! i)) is)"
    "records t' = records t1
                + word_of_nat (length (filter (\<lambda>i. interesting (cells b ! i)) is))"
    using Cons.IH[OF rest, of t1] by blast
  show ?case using step r t1 by (simp add: c_def)
qed

lemma wf_board_index:
  assumes "wf_board b" and "i < length (cells b)"
  shows "cellX (cells b ! i) + cellY (cells b ! i) * cellsX b = int i"
  using wf_board_cell[OF assms] by simp

lemma map_cong_filter:
  assumes "\<forall>i\<in>set xs. f i = g i"
  shows "map f (filter P xs) = map g (filter P xs)"
  using assms by (induction xs) auto

lemma addHistory_result:
  fixes h b
  defines "h1 \<equiv> (if history_turns h = TURN_LIMIT then snd (clearHistory h) else h)"
  assumes wf: "wf_board b" and ok: "\<not> history_turns h > turns b"
  shows "\<exists>t. addHistory h b
              = Some (True, h1\<lparr>turnData := take (unat (history_turns h1)) (turnData h1) @ [t],
                               currentTurn := history_turns h1,
                               history_turns := history_turns h1 + 1\<rparr>)
           \<and> state t = map (\<lambda>i. cell_status (cells b ! i))
                          (filter (\<lambda>i. interesting (cells b ! i)) [0..<length (cells b)])
           \<and> index t = map word_of_nat
                          (filter (\<lambda>i. interesting (cells b ! i)) [0..<length (cells b)])
           \<and> records t = word_of_nat
                 (length (filter (\<lambda>i. interesting (cells b ! i)) [0..<length (cells b)]))"
proof -
  define n where "n = length (cells b)"
  define fresh where "fresh = \<lparr>records = 0, countBorn = 0, countDeath = 0, countStable = 0,
                      state = [], index = []\<rparr>"
  have cc: "unat (cellCount b) = n" using wf_board_size(3)[OF wf] by (simp add: n_def)
  have "\<forall>i\<in>set [0..<n]. i < length (cells b)" by (simp add: n_def)
  from record_cells_result[OF this, of fresh]
  obtain t where t: "record_cells b [0..<n] fresh = Some t"
    "state t = map (\<lambda>i. cell_status (cells b ! i))
                                    (filter (\<lambda>i. interesting (cells b ! i)) [0..<n])"
    "index t = map (\<lambda>i. word_of_int (cellX (cells b ! i) + cellY (cells b ! i) * cellsX b))
                    (filter (\<lambda>i. interesting (cells b ! i)) [0..<n])"
    "records t = word_of_nat (length (filter (\<lambda>i. interesting (cells b ! i)) [0..<n]))"
    by (auto simp: fresh_def)
  have "\<forall>i\<in>set [0..<n].
          (word_of_int (cellX (cells b ! i) + cellY (cells b ! i) * cellsX b) :: uint)
          = word_of_nat i"
    using wf_board_index[OF wf] by (simp add: n_def)
  then have idx: "index t = map word_of_nat (filter (\<lambda>i. interesting (cells b ! i)) [0..<n])"
    unfolding t(3) by (rule map_cong_filter)
  have "addHistory h b
              = Some (True, h1\<lparr>turnData := take (unat (history_turns h1)) (turnData h1) @ [t],
                               currentTurn := history_turns h1,
                               history_turns := history_turns h1 + 1\<rparr>)"
    using ok t(1)
    by (simp add: addHistory_def cc Let_def fresh_def[symmetric] h1_def)
  then show ?thesis using t(2,4) idx by (auto simp: n_def)
qed

lemma addHistory_guard:
  assumes "history_turns h > turns b"
  shows "addHistory h b = Some (False, h)"
  using assms by (simp add: addHistory_def)

lemma uint_succ_unat:
  assumes "(w::uint) \<noteq> TURN_LIMIT"
  shows "unat (w + 1) = unat w + 1"
proof -
  have "unat w < 2 ^ LENGTH(32)" by (rule unsigned_less)
  moreover have "unat w \<noteq> 4294967295"
  proof
    assume "unat w = 4294967295"
    then have "(word_of_nat (unat w) :: uint) = word_of_nat 4294967295" by (rule arg_cong)
    then have "w = TURN_LIMIT" by (simp add: TURN_LIMIT_def)
    then show False using assms by simp
  qed
  ultimately have "unat w + 1 < 2 ^ 32" by simp
  then show ?thesis by (simp add: unat_add_lem[THEN iffD1])
qed

lemma uint_succ_greater:
  assumes "(w::uint) \<noteq> TURN_LIMIT"
  shows "w + 1 > w"
  using uint_succ_unat[OF assms] by (simp add: word_less_nat_alt)

theorem record_twice_counterexample:
  "map_option fst (late_record_twice blinker_board) = Some True
   \<and> map_option (fst \<circ> snd) (late_record_twice blinker_board) = Some True"
  by code_simp

text \<open>
  Claim C7, amended. \<open>addHistory\<close> returns failure and the history it was given whenever
  the count of recorded turns exceeds the turn counter of the board (the board is only
  read). Two calls in a row on the same well-formed board: when the count equals the turn
  counter, below \<open>TURN_LIMIT\<close>, the first succeeds and the second fails; when the count
  is below the turn counter, both succeed.
\<close>

theorem record_guard:
  "(history_turns h > turns b \<longrightarrow> addHistory h b = Some (False, h))
   \<and> (wf_board b \<and> history_turns h = turns b \<and> turns b \<noteq> TURN_LIMIT
        \<longrightarrow> (\<exists>h1. addHistory h b = Some (True, h1) \<and> addHistory h1 b = Some (False, h1)))
   \<and> (wf_board b \<and> history_turns h < turns b
        \<longrightarrow> (\<exists>h1 h2. addHistory h b = Some (True, h1) \<and> addHistory h1 b = Some (True, h2)))"
proof (intro conjI impI)
  assume "history_turns h > turns b"
  then show "addHistory h b = Some (False, h)" by (rule addHistory_guard)
next
  assume a: "wf_board b \<and> history_turns h = turns b \<and> turns b \<noteq> TURN_LIMIT"
  then have wf: "wf_board b" and ok: "\<not> history_turns h > turns b"
    and nl: "history_turns h \<noteq> TURN_LIMIT" by simp_all
  obtain h1 where h1: "addHistory h b = Some (True, h1)"
    "history_turns h1 = history_turns h + 1"
    using addHistory_result[OF wf ok] nl by auto
  have "history_turns h1 > turns b" using h1(2) a uint_succ_greater[of "turns b"] by simp
  then have "addHistory h1 b = Some (False, h1)" by (rule addHistory_guard)
  then show "\<exists>h1. addHistory h b = Some (True, h1) \<and> addHistory h1 b = Some (False, h1)"
    using h1(1) by blast
next
  assume a: "wf_board b \<and> history_turns h < turns b"
  then have wf: "wf_board b" and ok: "\<not> history_turns h > turns b" by auto
  have nl: "history_turns h \<noteq> TURN_LIMIT"
  proof
    assume "history_turns h = TURN_LIMIT"
    then have "TURN_LIMIT < turns b" using a by simp
    then show False using turn_limit_never_exceeded by simp
  qed
  obtain h1 where h1: "addHistory h b = Some (True, h1)"
    "history_turns h1 = history_turns h + 1"
    using addHistory_result[OF wf ok] nl by auto
  have "unat (history_turns h) < unat (turns b)" using a by (simp add: word_less_nat_alt)
  moreover have "unat (history_turns h + 1) = unat (history_turns h) + 1"
    using uint_succ_unat[OF nl] .
  ultimately have ok1: "\<not> history_turns h1 > turns b"
    using h1(2) by (simp add: word_less_nat_alt)
  obtain h2 where "addHistory h1 b = Some (True, h2)"
    using addHistory_result[OF wf ok1] by auto
  then show "\<exists>h1 h2. addHistory h b = Some (True, h1) \<and> addHistory h1 b = Some (True, h2)"
    using h1(1) by blast
qed

theorem record_guard_witness:
  "wf_board blinker_board \<and> history_turns empty_history = turns blinker_board
   \<and> turns blinker_board \<noteq> TURN_LIMIT
   \<and> map_option (\<lambda>r. (fst r, fst (snd r))) (record_twice empty_history blinker_board)
       = Some (True, False)"
proof -
  have h: "wf_board blinker_board \<and> history_turns empty_history = turns blinker_board
      \<and> turns blinker_board \<noteq> TURN_LIMIT" by code_simp
  from record_guard[where h = empty_history and b = blinker_board] h
  obtain h1 where "addHistory empty_history blinker_board = Some (True, h1)"
    "addHistory h1 blinker_board = Some (False, h1)" by blast
  then have "record_twice empty_history blinker_board = Some (True, False, h1, h1)"
    by (simp add: record_twice_def)
  then show ?thesis using h by simp
qed

lemma filter_or_length:
  "length (filter (\<lambda>i. P i \<or> Q i) xs) \<le> length (filter P xs) + length (filter Q xs)"
  by (induction xs) auto

lemma living_count_index:
  "living_count cs = length (filter (\<lambda>i. isLiving (cs ! i)) [0..<length cs])"
proof -
  have "filter isLiving (map ((!) cs) [0..<length cs])
        = map ((!) cs) (filter (isLiving \<circ> (!) cs) [0..<length cs])"
    by (rule filter_map)
  then have "length (filter isLiving cs)
             = length (filter (isLiving \<circ> (!) cs) [0..<length cs])"
    by (simp add: map_nth)
  then show ?thesis by (simp add: living_count_def comp_def)
qed

lemma filter_cong_set:
  assumes "\<forall>i\<in>set xs. P i = Q i"
  shows "filter P xs = filter Q xs"
  using assms by (induction xs) auto

lemma uint_of_nat_small:
  assumes "m \<le> length (cells b)" and "wf_board b"
  shows "unat (word_of_nat m :: uint) = m"
  using assms wf_board_length_bound[OF assms(2)] by (simp add: unat_of_nat)

text \<open>
  Claim C9. Let \<open>b'\<close> be the board after one live turn on a well-formed board \<open>b\<close>, and
  let \<open>addHistory\<close> succeed on \<open>b'\<close>. The turn appended last has one entry for each cell
  that is changed or alive, in the order of the cells, and none for the others; the number
  of entries, which is \<open>records\<close>, is at most the number of living cells of \<open>b\<close> plus the
  number of living cells of \<open>b'\<close>. When the counter \<open>livingCells\<close> of \<open>b\<close> is that number,
  the bound is \<open>livingCells\<close> of \<open>b\<close> plus \<open>livingCells\<close> of \<open>b'\<close> as well.
\<close>

theorem record_size_bound:
  assumes wf: "wf_board b"
    and turn: "applyTurn b False = Some b'" and rec: "addHistory h b' = Some (True, h')"
  shows "index (last (turnData h'))
           = map word_of_nat (filter (\<lambda>i. cellChanged (cells b' ! i) \<or> isLiving (cells b' ! i))
                                [0..<length (cells b')])
         \<and> state (last (turnData h'))
           = map (\<lambda>i. cell_status (cells b' ! i))
               (filter (\<lambda>i. cellChanged (cells b' ! i) \<or> isLiving (cells b' ! i))
                  [0..<length (cells b')])
         \<and> unat (records (last (turnData h'))) = length (index (last (turnData h')))
         \<and> unat (records (last (turnData h')))
             \<le> living_count (cells b) + living_count (cells b')
         \<and> (unat (livingCells b) = living_count (cells b)
              \<longrightarrow> unat (records (last (turnData h')))
                    \<le> unat (livingCells b) + unat (livingCells b'))"
proof -
  define n where "n = length (cells b)"
  define L where "L = filter (\<lambda>i. interesting (cells b' ! i)) [0..<length (cells b')]"
  have wf': "wf_board b'" using applyTurn_wf[OF wf turn] .
  obtain b2 where b2: "applyTurn b False = Some b2" "length (cells b2) = length (cells b)"
    "\<forall>j<length (cells b).
        cells b2 ! j = committed (will_die b j) (will_be_born b j) (cells b ! j)"
    "livingCells b = word_of_nat (living_count (cells b))
       \<longrightarrow> livingCells b2 = word_of_nat (living_count (cells b2))"
    using applyTurn_result[OF wf, of False] by blast
  have eq: "b2 = b'" using b2(1) turn by simp
  have len: "length (cells b') = n" using b2(2) by (simp add: eq n_def)
  have inv': "unat (livingCells b') = living_count (cells b')"
    if inv: "unat (livingCells b) = living_count (cells b)"
  proof -
    have "word_of_nat (unat (livingCells b)) = livingCells b" by simp
    then have "livingCells b = word_of_nat (living_count (cells b))" using inv by simp
    then show ?thesis
      using unat_of_living_count[OF wf_board_size(3)[OF wf']] b2(4) by (simp add: eq)
  qed
  have ok: "\<not> history_turns h > turns b'"
    using rec by (auto simp: addHistory_def)
  obtain t where t: "last (turnData h') = t"
    "state t = map (\<lambda>i. cell_status (cells b' ! i)) L"
    "index t = map word_of_nat L" "records t = word_of_nat (length L)"
    using addHistory_result[OF wf' ok] rec by (auto simp: L_def)
  have "length L \<le> length (cells b')" unfolding L_def
    using length_filter_le[of "\<lambda>i. interesting (cells b' ! i)" "[0..<length (cells b')]"] by simp
  then have recs: "unat (records t) = length L"
    using uint_of_nat_small[OF _ wf'] t(4) by simp
  have "\<forall>i\<in>set [0..<n]. interesting (cells b' ! i)
          = (isLiving (cells b ! i) \<or> isLiving (cells b' ! i))"
    using b2(3) by (auto simp: eq n_def interesting_def committed_def will_die_def
        will_be_born_def)
  then have "L = filter (\<lambda>i. isLiving (cells b ! i) \<or> isLiving (cells b' ! i)) [0..<n]"
    unfolding L_def len by (rule filter_cong_set)
  then have "length L \<le> length (filter (\<lambda>i. isLiving (cells b ! i)) [0..<n])
                         + length (filter (\<lambda>i. isLiving (cells b' ! i)) [0..<n])"
    using filter_or_length[of "\<lambda>i. isLiving (cells b ! i)" "\<lambda>i. isLiving (cells b' ! i)" "[0..<n]"]
    by simp
  then have bound: "length L \<le> living_count (cells b) + living_count (cells b')"
    using living_count_index[of "cells b"] living_count_index[of "cells b'"] len
    by (simp add: n_def)
  show ?thesis
    using t recs bound inv' by (simp add: L_def interesting_def)
qed

theorem record_size_bound_witness:
  "wf_board blinker_board
   \<and> (\<exists>b' h'. applyTurn blinker_board False = Some b'
          \<and> addHistory empty_history b' = Some (True, h')
          \<and> unat (records (last (turnData h')))
              \<le> living_count (cells blinker_board) + living_count (cells b'))
   \<and> map_option (\<lambda>hb. (unat (records (last (turnData (fst hb)))),
                         index (last (turnData (fst hb))), state (last (turnData (fst hb))),
                         living_count (cells (snd hb))))
        (record_turn (empty_history, blinker_board))
       = Some (5, [1, 5, 6, 7, 11], [BORN, DEAD, STABLE, DEAD, BORN], 3)
   \<and> living_count (cells blinker_board) = 3"
proof -
  have h: "wf_board blinker_board" by code_simp
  have "applyTurn blinker_board False \<noteq> None" by code_simp
  then obtain b' where t: "applyTurn blinker_board False = Some b'" by blast
  have e: "map_option (\<lambda>b. map_option fst (addHistory empty_history b))
             (applyTurn blinker_board False) = Some (Some True)" by code_simp
  then obtain h' where r: "addHistory empty_history b' = Some (True, h')"
    using t by (cases "addHistory empty_history b'") auto
  have v: "map_option (\<lambda>hb. (unat (records (last (turnData (fst hb)))),
                         index (last (turnData (fst hb))), state (last (turnData (fst hb))),
                         living_count (cells (snd hb))))
        (record_turn (empty_history, blinker_board))
       = Some (5, [1, 5, 6, 7, 11], [BORN, DEAD, STABLE, DEAD, BORN], 3)" by code_simp
  have c: "living_count (cells blinker_board) = 3" by code_simp
  from record_size_bound[OF h t r]
  have "unat (records (last (turnData h')))
              \<le> living_count (cells blinker_board) + living_count (cells b')" by blast
  then show ?thesis using h t r v c by blast
qed

subsection \<open>Replaying a turn and navigating the history\<close>

lemma replay_records_result:
  assumes "\<forall>p\<in>set ps. p < length (index t) \<and> p < length (state t)
              \<and> unat (index t ! p) < length (cells b)
              \<and> interesting (cells bk ! unat (index t ! p))
              \<and> state t ! p = cell_status (cells bk ! unat (index t ! p))"
  shows "\<exists>b'. replay_records t ps b = Some b'
           \<and> length (cells b') = length (cells b)
           \<and> cellsX b' = cellsX b \<and> cellsY b' = cellsY b \<and> cellCount b' = cellCount b
           \<and> turns b' = turns b \<and> livingCells b' = livingCells b \<and> isDirty b' = isDirty b
           \<and> (\<forall>j<length (cells b). cells b' ! j
                 = (if j \<in> (\<lambda>p. unat (index t ! p)) ` set ps
                    then with_flags (cells bk ! j) (cells b ! j) else cells b ! j))"
  using assms
proof (induction ps arbitrary: b)
  case Nil
  then show ?case by simp
next
  case (Cons p ps)
  define i where "i = unat (index t ! p)"
  have p: "p < length (index t)" "p < length (state t)" "i < length (cells b)"
    "interesting (cells bk ! i)" "state t ! p = cell_status (cells bk ! i)"
    using Cons.prems by (simp_all add: i_def)
  define b1 where "b1 = b\<lparr>cells := (cells b)[i := with_flags (cells bk ! i) (cells b ! i)]\<rparr>"
  have one: "(case state t ! p of
              STABLE \<Rightarrow>
                modify_cell (unat (index t ! p))
                  (\<lambda>c. c\<lparr>isLiving := True, cellChanged := False\<rparr>) b
            | DEAD \<Rightarrow>
                modify_cell (unat (index t ! p))
                  (\<lambda>c. c\<lparr>isLiving := False, cellChanged := True\<rparr>) b
            | BORN \<Rightarrow>
                modify_cell (unat (index t ! p))
                  (\<lambda>c. c\<lparr>isLiving := True, cellChanged := True\<rparr>) b
            | DISABLED \<Rightarrow> Some b) = Some b1"
    using p(3,4) unfolding p(5) i_def[symmetric]
    by (auto simp: cell_status_def interesting_def modify_cell_def b1_def with_flags_def)
  have step: "replay_records t (p # ps) b = replay_records t ps b1"
    using p(1,2) one by simp
  have f1: "length (cells b1) = length (cells b)" "cellsX b1 = cellsX b" "cellsY b1 = cellsY b"
    "cellCount b1 = cellCount b" "turns b1 = turns b" "livingCells b1 = livingCells b"
    "isDirty b1 = isDirty b"
    by (simp_all add: b1_def)
  have rest: "\<forall>q\<in>set ps. q < length (index t) \<and> q < length (state t)
              \<and> unat (index t ! q) < length (cells b1)
              \<and> interesting (cells bk ! unat (index t ! q))
              \<and> state t ! q = cell_status (cells bk ! unat (index t ! q))"
    using Cons.prems f1(1) by simp
  obtain b' where r: "replay_records t ps b1 = Some b'"
    "length (cells b') = length (cells b1)"
    "cellsX b' = cellsX b1" "cellsY b' = cellsY b1" "cellCount b' = cellCount b1"
    "turns b' = turns b1" "livingCells b' = livingCells b1" "isDirty b' = isDirty b1"
    "\<forall>j<length (cells b1). cells b' ! j
        = (if j \<in> (\<lambda>p. unat (index t ! p)) ` set ps
           then with_flags (cells bk ! j) (cells b1 ! j) else cells b1 ! j)"
    using Cons.IH[OF rest] by blast
  have cs: "\<forall>j<length (cells b). cells b' ! j
      = (if j \<in> (\<lambda>p. unat (index t ! p)) ` set (p # ps)
         then with_flags (cells bk ! j) (cells b ! j) else cells b ! j)"
  proof (intro allI impI)
    fix j assume j: "j < length (cells b)"
    have c1: "cells b1 ! j = (if j = i then with_flags (cells bk ! i) (cells b ! i)
                              else cells b ! j)"
      using j by (simp add: b1_def)
    show "cells b' ! j
      = (if j \<in> (\<lambda>p. unat (index t ! p)) ` set (p # ps)
         then with_flags (cells bk ! j) (cells b ! j) else cells b ! j)"
      using r(9)[rule_format, of j] j f1(1) c1
      by (auto simp: i_def with_flags_def)
  qed
  show ?case using step r(1-8) f1 cs by simp
qed

lemma representsD:
  assumes "represents t bk"
  shows "length (state t) = length (index t)" and "unat (records t) = length (index t)"
    and "\<And>p. p < length (index t) \<Longrightarrow> unat (index t ! p) < length (cells bk)
            \<and> interesting (cells bk ! unat (index t ! p))
            \<and> state t ! p = cell_status (cells bk ! unat (index t ! p))"
    and "\<And>j. j < length (cells bk) \<Longrightarrow> interesting (cells bk ! j)
            \<Longrightarrow> j \<in> unat ` set (index t)"
  using assms by (simp_all add: represents_def list_all_iff)

lemma historyDisplayTurn_result:
  assumes len: "unat (cellCount b) = length (cells b)"
    and same: "length (cells bk) = length (cells b)"
    and cur: "unat (currentTurn h) < length (turnData h)"
    and rep: "represents (turnData h ! unat (currentTurn h)) bk"
  shows "\<exists>b'. historyDisplayTurn h b = Some (True, b')
           \<and> length (cells b') = length (cells b)
           \<and> cellsX b' = cellsX b \<and> cellsY b' = cellsY b \<and> cellCount b' = cellCount b
           \<and> turns b' = turns b \<and> livingCells b' = livingCells b
           \<and> (\<forall>j<length (cells b). cells b' ! j = with_flags (cells bk ! j) (cells b ! j))"
proof -
  define t where "t = turnData h ! unat (currentTurn h)"
  have rp: "represents t bk" using rep by (simp add: t_def)
  obtain b0 where b0: "reset_cells [0..<unat (cellCount b)] b = Some b0"
    "length (cells b0) = length (cells b)"
    "cellsX b0 = cellsX b" "cellsY b0 = cellsY b" "cellCount b0 = cellCount b"
    "turns b0 = turns b" "livingCells b0 = livingCells b"
    "\<forall>j<length (cells b).
        cells b0 ! j = (cells b ! j)\<lparr>isLiving := False, cellChanged := False\<rparr>"
    using reset_cells_all[OF len] by blast
  have pre: "\<forall>p\<in>set [0..<unat (records t)]. p < length (index t) \<and> p < length (state t)
              \<and> unat (index t ! p) < length (cells b0)
              \<and> interesting (cells bk ! unat (index t ! p))
              \<and> state t ! p = cell_status (cells bk ! unat (index t ! p))"
    using representsD(1,2)[OF rp] representsD(3)[OF rp] same b0(2) by simp
  obtain b1 where b1: "replay_records t [0..<unat (records t)] b0 = Some b1"
    "length (cells b1) = length (cells b0)"
    "cellsX b1 = cellsX b0" "cellsY b1 = cellsY b0" "cellCount b1 = cellCount b0"
    "turns b1 = turns b0" "livingCells b1 = livingCells b0"
    "\<forall>j<length (cells b0). cells b1 ! j
        = (if j \<in> (\<lambda>p. unat (index t ! p)) ` set [0..<unat (records t)]
           then with_flags (cells bk ! j) (cells b0 ! j) else cells b0 ! j)"
    using replay_records_result[OF pre] by blast
  have img: "(\<lambda>p. unat (index t ! p)) ` set [0..<unat (records t)] = unat ` set (index t)"
  proof -
    have "set (index t) = (\<lambda>p. index t ! p) ` {0..<length (index t)}"
      by (auto simp: in_set_conv_nth)
    then show ?thesis using representsD(2)[OF rp] by (auto simp: image_image)
  qed
  have cs: "\<forall>j<length (cells b). cells b1 ! j = with_flags (cells bk ! j) (cells b ! j)"
  proof (intro allI impI)
    fix j assume j: "j < length (cells b)"
    show "cells b1 ! j = with_flags (cells bk ! j) (cells b ! j)"
    proof (cases "j \<in> unat ` set (index t)")
      case True
      then show ?thesis using b1(8) b0(2,8) j img by (simp add: with_flags_def)
    next
      case False
      then have "\<not> interesting (cells bk ! j)" using representsD(4)[OF rp, of j] j same by auto
      then have "\<not> isLiving (cells bk ! j)" "\<not> cellChanged (cells bk ! j)"
        by (simp_all add: interesting_def)
      then show ?thesis using False b1(8) b0(2,8) j img by (simp add: with_flags_def)
    qed
  qed
  have "historyDisplayTurn h b = Some (True, b1)"
    using b0(1) b1(1) cur by (simp add: historyDisplayTurn_def t_def Let_def)
  then show ?thesis using b0(2-7) b1(2-7) cs by simp
qed

lemma unat_of_nat_cell:
  assumes "wf_board b" and "i < length (cells b)"
  shows "unat (word_of_nat i :: uint) = i"
  using uint_of_nat_small[OF _ assms(1), of i] assms(2) by simp

lemma addHistory_represents:
  fixes h b
  defines "h1 \<equiv> (if history_turns h = TURN_LIMIT then snd (clearHistory h) else h)"
  assumes wf: "wf_board b" and ok: "\<not> history_turns h > turns b"
  shows "\<exists>t. addHistory h b
              = Some (True, h1\<lparr>turnData := take (unat (history_turns h1)) (turnData h1) @ [t],
                               currentTurn := history_turns h1,
                               history_turns := history_turns h1 + 1\<rparr>)
           \<and> represents t b"
proof -
  define L where "L = filter (\<lambda>i. interesting (cells b ! i)) [0..<length (cells b)]"
  obtain t where t: "addHistory h b
              = Some (True, h1\<lparr>turnData := take (unat (history_turns h1)) (turnData h1) @ [t],
                               currentTurn := history_turns h1,
                               history_turns := history_turns h1 + 1\<rparr>)"
    "state t = map (\<lambda>i. cell_status (cells b ! i)) L"
    "index t = map word_of_nat L" "records t = word_of_nat (length L)"
    using addHistory_result[OF wf ok] unfolding h1_def L_def by blast
  have Lset: "\<And>i. i \<in> set L \<longleftrightarrow> i < length (cells b) \<and> interesting (cells b ! i)"
    by (auto simp: L_def)
  have "length L \<le> length (cells b)" unfolding L_def
    using length_filter_le[of "\<lambda>i. interesting (cells b ! i)" "[0..<length (cells b)]"] by simp
  then have recs: "unat (records t) = length (index t)"
    using uint_of_nat_small[OF _ wf] t(3,4) by simp
  have ent: "\<forall>p\<in>set [0..<length (index t)]. unat (index t ! p) < length (cells b)
                     \<and> interesting (cells b ! unat (index t ! p))
                     \<and> state t ! p = cell_status (cells b ! unat (index t ! p))"
  proof
    fix p assume "p \<in> set [0..<length (index t)]"
    then have p: "p < length L" using t(3) by simp
    then have m: "L ! p \<in> set L" by simp
    then have lt: "L ! p < length (cells b)" and int: "interesting (cells b ! (L ! p))"
      using Lset by simp_all
    have u: "unat (index t ! p) = L ! p"
      using unat_of_nat_cell[OF wf lt] p t(3) by simp
    show "unat (index t ! p) < length (cells b)
                     \<and> interesting (cells b ! unat (index t ! p))
                     \<and> state t ! p = cell_status (cells b ! unat (index t ! p))"
      using u lt int p t(2) by simp
  qed
  have cov: "\<forall>j\<in>set [0..<length (cells b)]. interesting (cells b ! j)
               \<longrightarrow> j \<in> unat ` set (index t)"
  proof (intro ballI impI)
    fix j assume "j \<in> set [0..<length (cells b)]" and i: "interesting (cells b ! j)"
    then have j: "j < length (cells b)" by simp
    then have "j \<in> set L" using i Lset by simp
    then have "word_of_nat j \<in> set (index t)" using t(3) by simp
    then have "unat (word_of_nat j :: uint) \<in> unat ` set (index t)" by (rule imageI)
    then show "j \<in> unat ` set (index t)" using unat_of_nat_cell[OF wf j] by simp
  qed
  have "represents t b"
    using t(2,3) recs ent cov by (simp add: represents_def list_all_iff)
  then show ?thesis using t(1) by blast
qed

lemma same_flagsI:
  assumes "length (cells b) = length (cells bk)"
    and "\<forall>j<length (cells b). cells b ! j = with_flags (cells bk ! j) (c j)"
  shows "same_flags b bk"
  using assms by (simp add: same_flags_def list_all_iff with_flags_def)

lemma same_flags_living:
  assumes "same_flags b bk"
  shows "map isLiving (cells b) = map isLiving (cells bk)"
  using assms by (auto simp: same_flags_def list_all_iff intro!: nth_equalityI)

lemma shows_turn_display:
  assumes led: "ledger_of L h" and sh: "shows_turn L h b" and k: "k < length L"
    and h': "h' = h\<lparr>currentTurn := word_of_nat k\<rparr>"
  shows "\<exists>b'. historyDisplayTurn h' b = Some (True, b') \<and> ledger_of L h' \<and> shows_turn L h' b'
           \<and> turns b' = turns b \<and> livingCells b' = livingCells b
           \<and> unat (currentTurn h') = k"
proof -
  have L32: "length L < 2 ^ 32" using led by (simp add: ledger_of_def)
  have uk: "unat (word_of_nat k :: uint) = k" using k L32 by (simp add: unat_of_nat)
  have len: "unat (cellCount b) = length (cells b)" using sh by (simp add: shows_turn_def)
  have all: "\<forall>bk\<in>set L. length (cells bk) = length (cells b)"
    using sh by (simp add: shows_turn_def list_all_iff)
  have same: "length (cells (L ! k)) = length (cells b)" using all k by simp
  have cur: "unat (currentTurn h') < length (turnData h')"
    using led k uk by (simp add: h' ledger_of_def)
  have rep: "represents (turnData h' ! unat (currentTurn h')) (L ! k)"
    using led k uk by (simp add: h' ledger_of_def list_all_iff)
  obtain b' where b': "historyDisplayTurn h' b = Some (True, b')"
    "length (cells b') = length (cells b)" "cellCount b' = cellCount b"
    "turns b' = turns b" "livingCells b' = livingCells b"
    "\<forall>j<length (cells b). cells b' ! j = with_flags (cells (L ! k) ! j) (cells b ! j)"
    using historyDisplayTurn_result[OF len same cur rep] by blast
  have sf: "same_flags b' (L ! k)"
    using same_flagsI[of b' "L ! k" "\<lambda>j. cells b ! j"] b'(2,6) same by simp
  have led': "ledger_of L h'" using led by (simp add: h' ledger_of_def)
  have "shows_turn L h' b'"
    using sh sf b'(2,3,4) k uk by (simp add: shows_turn_def h')
  then show ?thesis using b'(1,4,5) led' uk by (simp add: h')
qed

lemma historyBackwards_step:
  assumes led: "ledger_of L h" and sh: "shows_turn L h b"
  shows "\<exists>ok h' b'. historyBackwards h b = Some (ok, h', b')
           \<and> ledger_of L h' \<and> shows_turn L h' b'
           \<and> turns b' = turns b \<and> livingCells b' = livingCells b
           \<and> unat (currentTurn h') = unat (currentTurn h) - 1"
proof (cases "currentTurn h = 0 \<or> history_turns h = 0")
  case True
  have "unat (currentTurn h) < length L" using sh by (simp add: shows_turn_def)
  then have L: "0 < length L" by (rule le_less_trans[OF le0])
  have L32: "length L < 2 ^ 32" using led by (simp add: ledger_of_def)
  have "history_turns h \<noteq> 0"
    using led L L32 of_nat_neq_0[of "length L", where 'a = 32] by (simp add: ledger_of_def)
  then have c0: "currentTurn h = 0" using True by simp
  then have "historyBackwards h b = Some (False, h, b)" by (simp add: historyBackwards_def)
  then show ?thesis using c0 led sh
    by (intro exI[of _ False] exI[of _ h] exI[of _ b]) simp
next
  case False
  then have nz: "currentTurn h \<noteq> 0" by simp
  define k where "k = unat (currentTurn h) - 1"
  have "unat (currentTurn h) < length L" using sh by (simp add: shows_turn_def)
  then have k: "k < length L" unfolding k_def by arith
  have "word_of_nat (unat (currentTurn h - 1)) = currentTurn h - 1" by simp
  then have "word_of_nat k = currentTurn h - 1"
    unfolding unat_pred(1)[OF nz] k_def by simp
  then have h': "h\<lparr>currentTurn := currentTurn h - 1\<rparr> = h\<lparr>currentTurn := word_of_nat k\<rparr>"
    by simp
  define hk where "hk = h\<lparr>currentTurn := word_of_nat k\<rparr>"
  obtain b' where r: "historyDisplayTurn hk b = Some (True, b')"
    "ledger_of L hk" "shows_turn L hk b'"
    "turns b' = turns b" "livingCells b' = livingCells b"
    "unat (currentTurn hk) = k"
    using shows_turn_display[OF led sh k hk_def] by blast
  have "historyBackwards h b = Some (True, hk, b')"
    using False r(1) by (simp add: historyBackwards_def h' Let_def hk_def)
  then show ?thesis using r(2-6)
    by (intro exI[of _ True] exI[of _ hk] exI[of _ b']) (simp add: k_def)
qed

lemma historyForwards_step:
  assumes led: "ledger_of L h" and sh: "shows_turn L h b"
  shows "\<exists>ok h' b'. historyForwards h b = Some (ok, h', b')
           \<and> ledger_of L h' \<and> shows_turn L h' b'
           \<and> turns b' = turns b \<and> livingCells b' = livingCells b
           \<and> unat (currentTurn h') = min (unat (currentTurn h) + 1) (length L - 1)"
proof -
  have c: "unat (currentTurn h) < length L" and tb: "length L \<le> unat (turns b)"
    using sh by (simp_all add: shows_turn_def)
  have L32: "length L < 2 ^ 32" and ht: "history_turns h = word_of_nat (length L)"
    using led by (simp_all add: ledger_of_def)
  have L: "0 < length L" using c by (rule le_less_trans[OF le0])
  have htnz: "history_turns h \<noteq> 0"
    using L L32 of_nat_neq_0[of "length L", where 'a = 32] by (simp add: ht)
  have uht: "unat (history_turns h) = length L" using L32 by (simp add: ht unat_of_nat)
  have ulast: "unat (history_turns h - 1) = length L - 1"
    using unat_pred(1)[OF htnz] uht by simp
  have neq: "currentTurn h \<noteq> turns b"
  proof
    assume "currentTurn h = turns b"
    then have "unat (currentTurn h) = unat (turns b)" by simp
    then show False using c tb by simp
  qed
  show ?thesis
  proof (cases "currentTurn h = history_turns h - 1")
    case True
    then have u: "unat (currentTurn h) = length L - 1" using ulast by simp
    have "historyForwards h b = Some (False, h, b)"
      using True by (simp add: historyForwards_def)
    then show ?thesis using led sh u
      by (intro exI[of _ False] exI[of _ h] exI[of _ b]) simp
  next
    case False
    have "unat (currentTurn h) \<noteq> length L - 1"
    proof
      assume "unat (currentTurn h) = length L - 1"
      then have "unat (currentTurn h) = unat (history_turns h - 1)" using ulast by simp
      then have "currentTurn h = history_turns h - 1" by (simp add: word_unat_eq_iff)
      then show False using False by simp
    qed
    then have lt: "unat (currentTurn h) + 1 < length L" using c by arith
    define k where "k = unat (currentTurn h) + 1"
    have "unat (currentTurn h) + 1 < 2 ^ 32" using lt L32 by simp
    then have "unat (currentTurn h + 1) = k"
      unfolding k_def by (simp add: unat_add_lem[THEN iffD1])
    then have "word_of_nat k = currentTurn h + 1"
      by (metis of_nat_unat ucast_id)
    then have h': "h\<lparr>currentTurn := currentTurn h + 1\<rparr> = h\<lparr>currentTurn := word_of_nat k\<rparr>"
      by simp
    define hk where "hk = h\<lparr>currentTurn := word_of_nat k\<rparr>"
    have kl: "k < length L" using lt by (simp add: k_def)
    obtain b' where r: "historyDisplayTurn hk b = Some (True, b')"
      "ledger_of L hk" "shows_turn L hk b'"
      "turns b' = turns b" "livingCells b' = livingCells b"
      "unat (currentTurn hk) = k"
      using shows_turn_display[OF led sh kl hk_def] by blast
    have "historyForwards h b = Some (True, hk, b')"
      using False neq htnz r(1) by (simp add: historyForwards_def h' Let_def hk_def)
    moreover have "k = min (unat (currentTurn h) + 1) (length L - 1)"
      using lt by (simp add: k_def)
    ultimately show ?thesis using r(2-6)
      by (intro exI[of _ True] exI[of _ hk] exI[of _ b']) simp
  qed
qed

lemma navigate_backward_result:
  assumes "ledger_of L h" and "shows_turn L h b"
  shows "\<exists>h' b'. navigate_backward n (h, b) = Some (h', b')
           \<and> ledger_of L h' \<and> shows_turn L h' b'
           \<and> turns b' = turns b \<and> livingCells b' = livingCells b
           \<and> unat (currentTurn h') = unat (currentTurn h) - n"
  using assms
proof (induction n arbitrary: h b)
  case 0
  then show ?case by simp
next
  case (Suc n)
  obtain ok h1 b1 where s: "historyBackwards h b = Some (ok, h1, b1)"
    "ledger_of L h1" "shows_turn L h1 b1" "turns b1 = turns b" "livingCells b1 = livingCells b"
    "unat (currentTurn h1) = unat (currentTurn h) - 1"
    using historyBackwards_step[OF Suc.prems] by blast
  obtain h' b' where r: "navigate_backward n (h1, b1) = Some (h', b')"
    "ledger_of L h'" "shows_turn L h' b'" "turns b' = turns b1" "livingCells b' = livingCells b1"
    "unat (currentTurn h') = unat (currentTurn h1) - n"
    using Suc.IH[OF s(2,3)] by blast
  have "navigate_backward (Suc n) (h, b) = Some (h', b')" using s(1) r(1) by simp
  then show ?case using r(2-6) s(4-6) by simp
qed

lemma navigate_forward_result:
  assumes "ledger_of L h" and "shows_turn L h b"
  shows "\<exists>h' b'. navigate_forward n (h, b) = Some (h', b')
           \<and> ledger_of L h' \<and> shows_turn L h' b'
           \<and> turns b' = turns b \<and> livingCells b' = livingCells b
           \<and> unat (currentTurn h') = min (unat (currentTurn h) + n) (length L - 1)"
  using assms
proof (induction n arbitrary: h b)
  case 0
  then have "unat (currentTurn h) < length L" by (simp add: shows_turn_def)
  then have "unat (currentTurn h) = min (unat (currentTurn h)) (length L - 1)" by arith
  then show ?case using 0 by simp
next
  case (Suc n)
  obtain ok h1 b1 where s: "historyForwards h b = Some (ok, h1, b1)"
    "ledger_of L h1" "shows_turn L h1 b1" "turns b1 = turns b" "livingCells b1 = livingCells b"
    "unat (currentTurn h1) = min (unat (currentTurn h) + 1) (length L - 1)"
    using historyForwards_step[OF Suc.prems] by blast
  obtain h' b' where r: "navigate_forward n (h1, b1) = Some (h', b')"
    "ledger_of L h'" "shows_turn L h' b'" "turns b' = turns b1" "livingCells b' = livingCells b1"
    "unat (currentTurn h') = min (unat (currentTurn h1) + n) (length L - 1)"
    using Suc.IH[OF s(2,3)] by blast
  have "navigate_forward (Suc n) (h, b) = Some (h', b')" using s(1) r(1) by simp
  moreover have "unat (currentTurn h') = min (unat (currentTurn h) + Suc n) (length L - 1)"
    using r(6) s(6) by arith
  ultimately show ?case using r(2-5) s(4,5) by simp
qed

lemma record_turn_result:
  assumes wf: "wf_board b" and len: "length (turnData h) = m"
    and ht: "history_turns h = word_of_nat m" and mt: "m \<le> unat (turns b)"
    and nowrap: "unat (turns b) + 1 < 2 ^ 32"
  shows "\<exists>b' t. applyTurn b False = Some b'
           \<and> record_turn (h, b)
               = Some (h\<lparr>turnData := turnData h @ [t], currentTurn := word_of_nat m,
                         history_turns := word_of_nat (Suc m)\<rparr>, b')
           \<and> represents t b' \<and> wf_board b' \<and> unat (turns b') = unat (turns b) + 1
           \<and> length (cells b') = length (cells b)"
proof -
  obtain b' where b': "applyTurn b False = Some b'" "length (cells b') = length (cells b)"
    "turns b' = turns b + 1"
    using applyTurn_result[OF wf, of False] by auto
  have wf': "wf_board b'" using applyTurn_wf[OF wf b'(1)] .
  have ut: "unat (turns b') = unat (turns b) + 1"
    using nowrap by (simp add: b'(3) unat_add_lem[THEN iffD1])
  have um: "unat (word_of_nat m :: uint) = m" using mt nowrap by (simp add: unat_of_nat)
  have ok: "\<not> history_turns h > turns b'"
    using um ut mt by (simp add: ht word_less_nat_alt)
  have nl: "history_turns h \<noteq> TURN_LIMIT"
  proof
    assume "history_turns h = TURN_LIMIT"
    then have "unat (word_of_nat m :: uint) = unat TURN_LIMIT" by (simp add: ht)
    then show False using um mt nowrap by (simp add: TURN_LIMIT_def)
  qed
  obtain t where t: "addHistory h b'
              = Some (True, h\<lparr>turnData := take (unat (history_turns h)) (turnData h) @ [t],
                               currentTurn := history_turns h,
                               history_turns := history_turns h + 1\<rparr>)"
    "represents t b'"
    using addHistory_represents[OF wf' ok] nl by auto
  have "record_turn (h, b)
               = Some (h\<lparr>turnData := turnData h @ [t], currentTurn := word_of_nat m,
                         history_turns := word_of_nat (Suc m)\<rparr>, b')"
    using b'(1) t(1) len um by (simp add: record_turn_def ht)
  then show ?thesis using b'(1,2) t(2) wf' ut by blast
qed

lemma record_turns_result:
  assumes "wf_board b" and "length (turnData h) = m"
    and "history_turns h = word_of_nat m" and "m \<le> unat (turns b)"
    and "unat (turns b) + k < 2 ^ 32"
  shows "\<exists>h' b' L ts. record_turns k (h, b) = Some (h', b') \<and> live_turns k b = Some b'
           \<and> length L = k \<and> length ts = k \<and> turnData h' = turnData h @ ts
           \<and> (\<forall>i<k. represents (ts ! i) (L ! i) \<and> length (cells (L ! i)) = length (cells b)
                  \<and> live_turns (Suc i) b = Some (L ! i))
           \<and> history_turns h' = word_of_nat (m + k)
           \<and> (0 < k \<longrightarrow> currentTurn h' = word_of_nat (m + k - 1) \<and> b' = L ! (k - 1))
           \<and> wf_board b' \<and> unat (turns b') = unat (turns b) + k
           \<and> length (cells b') = length (cells b)"
  using assms
proof (induction k arbitrary: h b m)
  case 0
  then show ?case by simp
next
  case (Suc k)
  have nowrap: "unat (turns b) + 1 < 2 ^ 32" using Suc.prems(5) by simp
  obtain b1 t where s: "applyTurn b False = Some b1"
    "record_turn (h, b)
       = Some (h\<lparr>turnData := turnData h @ [t], currentTurn := word_of_nat m,
                 history_turns := word_of_nat (Suc m)\<rparr>, b1)"
    "represents t b1" "wf_board b1" "unat (turns b1) = unat (turns b) + 1"
    "length (cells b1) = length (cells b)"
    using record_turn_result[OF Suc.prems(1-4) nowrap] by blast
  define h1 where "h1 = h\<lparr>turnData := turnData h @ [t], currentTurn := word_of_nat m,
                 history_turns := word_of_nat (Suc m)\<rparr>"
  have p2: "length (turnData h1) = Suc m" using Suc.prems(2) by (simp add: h1_def)
  have p3: "history_turns h1 = word_of_nat (Suc m)" by (simp add: h1_def)
  have p4: "Suc m \<le> unat (turns b1)" using Suc.prems(4) s(5) by simp
  have p5: "unat (turns b1) + k < 2 ^ 32" using Suc.prems(5) s(5) by simp
  obtain h' b' L ts where r: "record_turns k (h1, b1) = Some (h', b')"
    "live_turns k b1 = Some b'" "length L = k" "length ts = k"
    "turnData h' = turnData h1 @ ts"
    "\<forall>i<k. represents (ts ! i) (L ! i) \<and> length (cells (L ! i)) = length (cells b1)
                  \<and> live_turns (Suc i) b1 = Some (L ! i)"
    "history_turns h' = word_of_nat (Suc m + k)"
    "0 < k \<longrightarrow> currentTurn h' = word_of_nat (Suc m + k - 1) \<and> b' = L ! (k - 1)"
    "wf_board b'" "unat (turns b') = unat (turns b1) + k"
    "length (cells b') = length (cells b1)"
    using Suc.IH[OF s(4) p2 p3 p4 p5] by blast
  have a1: "record_turns (Suc k) (h, b) = Some (h', b')"
    using s(2) r(1) by (simp add: h1_def)
  have a2: "live_turns (Suc k) b = Some b'" using s(1) r(2) by simp
  have a3: "turnData h' = turnData h @ (t # ts)" using r(5) by (simp add: h1_def)
  have a4: "\<forall>i<Suc k. represents ((t # ts) ! i) ((b1 # L) ! i)
                  \<and> length (cells ((b1 # L) ! i)) = length (cells b)
                  \<and> live_turns (Suc i) b = Some ((b1 # L) ! i)"
  proof (intro allI impI)
    fix i assume i: "i < Suc k"
    show "represents ((t # ts) ! i) ((b1 # L) ! i)
                  \<and> length (cells ((b1 # L) ! i)) = length (cells b)
                  \<and> live_turns (Suc i) b = Some ((b1 # L) ! i)"
    proof (cases i)
      case 0
      then show ?thesis using s(1,3,6) by simp
    next
      case (Suc j)
      then have "j < k" using i by simp
      then show ?thesis using r(6) s(1,6) Suc by simp
    qed
  qed
  have a5: "currentTurn h' = word_of_nat (m + Suc k - 1) \<and> b' = (b1 # L) ! (Suc k - 1)"
  proof (cases k)
    case 0
    then have "h' = h1" "b' = b1" using r(1) by simp_all
    then show ?thesis using 0 by (simp add: h1_def)
  next
    case (Suc j)
    then show ?thesis using r(8) by simp
  qed
  have a6: "history_turns h' = word_of_nat (m + Suc k)" using r(7) by simp
  have a7: "unat (turns b') = unat (turns b) + Suc k" using r(10) s(5) by simp
  have a8: "length (cells b') = length (cells b)" using r(11) s(6) by simp
  have a9: "length (b1 # L) = Suc k" "length (t # ts) = Suc k" using r(3,4) by simp_all
  show ?case
    using a1 a2 a3 a4 a5 a6 a7 a8 a9 r(9)
    by (intro exI[of _ h'] exI[of _ b'] exI[of _ "b1 # L"] exI[of _ "t # ts"]) simp
qed

lemma same_flags_refl: "same_flags b b"
  by (simp add: same_flags_def list_all_iff)

text \<open>
  Claim C6. From a well-formed board and the empty history, for every \<open>n\<close> that does not
  wrap the turn counter: recording \<open>n\<close> turns succeeds and gives the live board \<open>b1\<close> of
  \<open>n\<close> turns; \<open>n\<close> calls of \<open>historyBackwards\<close> and then \<open>n\<close> calls of \<open>historyForwards\<close>
  return, and the board they leave has the \<open>isLiving\<close> flags of \<open>b1\<close>, cell for cell.
  In between, after the steps back, the cursor is at the first recorded turn and the board
  has the flags of the live board after one turn.
\<close>

theorem history_round_trip:
  assumes "wf_board b" and "unat (turns b) + n < 2 ^ 32"
  shows "\<exists>h1 b1 h2 b2 h3 b3.
           record_turns n (empty_history, b) = Some (h1, b1) \<and> live_turns n b = Some b1
           \<and> navigate_backward n (h1, b1) = Some (h2, b2)
           \<and> navigate_forward n (h2, b2) = Some (h3, b3)
           \<and> map isLiving (cells b3) = map isLiving (cells b1)
           \<and> (0 < n \<longrightarrow> unat (currentTurn h2) = 0 \<and> unat (currentTurn h3) = n - 1
                 \<and> (\<exists>bf. live_turns 1 b = Some bf
                        \<and> map isLiving (cells b2) = map isLiving (cells bf)))"
proof (cases n)
  case 0
  then show ?thesis by simp
next
  case (Suc n')
  have e: "length (turnData empty_history) = 0" "history_turns empty_history = word_of_nat 0"
    by (simp_all add: empty_history_def)
  obtain h1 b1 L ts where r: "record_turns n (empty_history, b) = Some (h1, b1)"
    "live_turns n b = Some b1" "length L = n" "length ts = n"
    "turnData h1 = turnData empty_history @ ts"
    "\<forall>i<n. represents (ts ! i) (L ! i) \<and> length (cells (L ! i)) = length (cells b)
                  \<and> live_turns (Suc i) b = Some (L ! i)"
    "history_turns h1 = word_of_nat (0 + n)"
    "0 < n \<longrightarrow> currentTurn h1 = word_of_nat (0 + n - 1) \<and> b1 = L ! (n - 1)"
    "wf_board b1" "unat (turns b1) = unat (turns b) + n"
    "length (cells b1) = length (cells b)"
    using record_turns_result[OF assms(1) e(1) e(2) le0 assms(2)] by blast
  have n32: "n < 2 ^ 32" using assms(2) by simp
  have td: "turnData h1 = ts" using r(5) by (simp add: empty_history_def)
  have led: "ledger_of L h1"
    using r(3,4,6,7) n32 td by (simp add: ledger_of_def list_all_iff)
  have npos: "0 < n" using Suc by simp
  have c1: "currentTurn h1 = word_of_nat (n - 1)" and last: "b1 = L ! (n - 1)"
    using r(8) npos by simp_all
  have "n - 1 < 2 ^ 32" using n32 by arith
  then have "(n - 1) mod 2 ^ 32 = n - 1" by (rule mod_less)
  then have cur: "unat (currentTurn h1) = n - 1"
    unfolding c1 unat_of_nat by simp
  have lens: "\<forall>bk\<in>set L. length (cells bk) = length (cells b1)"
    using r(3,6,11) by (auto simp: in_set_conv_nth)
  have "same_flags b1 (L ! unat (currentTurn h1))"
    using same_flags_refl[of b1] last cur by simp
  moreover have "unat (currentTurn h1) < length L" using cur r(3) npos by simp
  moreover have "length L \<le> unat (turns b1)" using r(3,10) by simp
  ultimately have sh: "shows_turn L h1 b1"
    using wf_board_size(3)[OF r(9)] lens
    by (simp add: shows_turn_def list_all_iff)
  obtain h2 b2 where bk: "navigate_backward n (h1, b1) = Some (h2, b2)"
    "ledger_of L h2" "shows_turn L h2 b2" "unat (currentTurn h2) = unat (currentTurn h1) - n"
    using navigate_backward_result[OF led sh, of n] by blast
  obtain h3 b3 where fw: "navigate_forward n (h2, b2) = Some (h3, b3)"
    "shows_turn L h3 b3"
    "unat (currentTurn h3) = min (unat (currentTurn h2) + n) (length L - 1)"
    using navigate_forward_result[OF bk(2,3), of n] by blast
  have c2: "unat (currentTurn h2) = 0" using bk(4) cur by simp
  have c3: "unat (currentTurn h3) = n - 1" using fw(3) c2 r(3) by simp
  have "same_flags b3 (L ! (n - 1))" using fw(2) c3 by (simp add: shows_turn_def)
  then have f3: "map isLiving (cells b3) = map isLiving (cells b1)"
    using same_flags_living last by simp
  have "same_flags b2 (L ! 0)" using bk(3) c2 by (simp add: shows_turn_def)
  then have f2: "map isLiving (cells b2) = map isLiving (cells (L ! 0))"
    by (rule same_flags_living)
  have l1: "live_turns 1 b = Some (L ! 0)" using r(6)[rule_format, of 0] npos by simp
  have "0 < n \<longrightarrow> unat (currentTurn h2) = 0 \<and> unat (currentTurn h3) = n - 1
                 \<and> (\<exists>bf. live_turns 1 b = Some bf
                        \<and> map isLiving (cells b2) = map isLiving (cells bf))"
    using c2 c3 f2 l1 by simp
  then show ?thesis using r(1,2) bk(1) fw(1) f3
    by (intro exI[of _ h1] exI[of _ b1] exI[of _ h2] exI[of _ b2] exI[of _ h3] exI[of _ b3])
      simp
qed

theorem history_round_trip_witness:
  "wf_board blinker_board \<and> unat (turns blinker_board) + 3 < (2::nat) ^ 32
   \<and> (\<exists>h1 b1 h2 b2 h3 b3.
           record_turns 3 (empty_history, blinker_board) = Some (h1, b1)
           \<and> navigate_backward 3 (h1, b1) = Some (h2, b2)
           \<and> navigate_forward 3 (h2, b2) = Some (h3, b3)
           \<and> map isLiving (cells b3) = map isLiving (cells b1))
   \<and> map_option (\<lambda>r. (map isLiving (cells (fst r)) = map isLiving (cells (snd r)),
                       living_count (cells (snd r))))
        (round_trip 3 blinker_board) = Some (True, 3)"
proof -
  have h: "wf_board blinker_board" by code_simp
  have "turns blinker_board = 0" by code_simp
  then have t: "unat (turns blinker_board) + 3 < (2::nat) ^ 32" by simp
  have v: "map_option (\<lambda>r. (map isLiving (cells (fst r)) = map isLiving (cells (snd r)),
                       living_count (cells (snd r))))
        (round_trip 3 blinker_board) = Some (True, 3)" by code_simp
  from history_round_trip[OF h t]
  have "\<exists>h1 b1 h2 b2 h3 b3.
           record_turns 3 (empty_history, blinker_board) = Some (h1, b1)
           \<and> navigate_backward 3 (h1, b1) = Some (h2, b2)
           \<and> navigate_forward 3 (h2, b2) = Some (h3, b3)
           \<and> map isLiving (cells b3) = map isLiving (cells b1)" by blast
  then show ?thesis using h t v by blast
qed

subsection \<open>The counter of living cells\<close>

lemma modify_cell_livingCells:
  assumes "modify_cell i f b = Some b'"
  shows "livingCells b' = livingCells b"
  using assms by (auto simp: modify_cell_def split: if_splits)

lemma reset_cells_livingCells:
  assumes "reset_cells is b = Some b'"
  shows "livingCells b' = livingCells b"
  using assms
proof (induction "is" arbitrary: b)
  case Nil
  then show ?case by simp
next
  case (Cons i "is")
  then obtain b1 where b1: "modify_cell i (\<lambda>c. c\<lparr>isLiving := False, cellChanged := False\<rparr>) b
      = Some b1" "reset_cells is b1 = Some b'"
    by (auto split: option.splits)
  show ?case using Cons.IH[OF b1(2)] modify_cell_livingCells[OF b1(1)] by simp
qed

lemma replay_records_livingCells:
  assumes "replay_records t ps b = Some b'"
  shows "livingCells b' = livingCells b"
  using assms
proof (induction ps arbitrary: b)
  case Nil
  then show ?case by simp
next
  case (Cons p ps)
  then obtain b1 where b1: "(case state t ! p of
              STABLE \<Rightarrow>
                modify_cell (unat (index t ! p))
                  (\<lambda>c. c\<lparr>isLiving := True, cellChanged := False\<rparr>) b
            | DEAD \<Rightarrow>
                modify_cell (unat (index t ! p))
                  (\<lambda>c. c\<lparr>isLiving := False, cellChanged := True\<rparr>) b
            | BORN \<Rightarrow>
                modify_cell (unat (index t ! p))
                  (\<lambda>c. c\<lparr>isLiving := True, cellChanged := True\<rparr>) b
            | DISABLED \<Rightarrow> Some b) = Some b1" "replay_records t ps b1 = Some b'"
    by (auto split: option.splits if_splits)
  have "livingCells b1 = livingCells b"
    using b1(1) modify_cell_livingCells by (cases "state t ! p") auto
  then show ?case using Cons.IH[OF b1(2)] by simp
qed

lemma historyDisplayTurn_livingCells:
  assumes "historyDisplayTurn h b = Some r"
  shows "livingCells (snd r) = livingCells b"
proof -
  obtain b0 where b0: "reset_cells [0..<unat (cellCount b)] b = Some b0"
    using assms by (auto simp: historyDisplayTurn_def split: option.splits)
  obtain b1 where b1: "replay_records (turnData h ! unat (currentTurn h))
        [0..<unat (records (turnData h ! unat (currentTurn h)))] b0 = Some b1" "r = (True, b1)"
    using assms b0 by (auto simp: historyDisplayTurn_def Let_def split: option.splits if_splits)
  show ?thesis
    using reset_cells_livingCells[OF b0] replay_records_livingCells[OF b1(1)] b1(2) by simp
qed

lemma historyBackwards_livingCells:
  assumes "historyBackwards h b = Some r"
  shows "livingCells (snd (snd r)) = livingCells b"
proof (cases "currentTurn h = 0 \<or> history_turns h = 0")
  case True
  then show ?thesis using assms by (auto simp: historyBackwards_def)
next
  case False
  then obtain d where "historyDisplayTurn (h\<lparr>currentTurn := currentTurn h - 1\<rparr>) b = Some d"
    "snd (snd r) = snd d"
    using assms by (auto simp: historyBackwards_def Let_def split: option.splits)
  then show ?thesis using historyDisplayTurn_livingCells by simp
qed

lemma historyForwards_livingCells:
  assumes "historyForwards h b = Some r"
  shows "livingCells (snd (snd r)) = livingCells b"
proof (cases "currentTurn h = turns b \<or> history_turns h = 0
         \<or> currentTurn h = history_turns h - 1")
  case True
  then show ?thesis using assms by (auto simp: historyForwards_def)
next
  case False
  then obtain d where "historyDisplayTurn (h\<lparr>currentTurn := currentTurn h + 1\<rparr>) b = Some d"
    "snd (snd r) = snd d"
    using assms by (auto simp: historyForwards_def Let_def split: option.splits)
  then show ?thesis using historyDisplayTurn_livingCells by simp
qed

text \<open>
  \<open>applyTurn\<close>, \<open>resetPlayboard\<close> and \<open>initRandomBoard\<close> keep the counter: on a well-formed
  board, if \<open>livingCells\<close> equals the number of living cells, it does so again after
  \<open>applyTurn\<close>; it does after \<open>resetPlayboard\<close>; it does after \<open>initRandomBoard\<close> whenever
  that returns.
\<close>

lemma livingCells_maintained:
  assumes "wf_board b"
  shows "(unat (livingCells b) = living_count (cells b)
            \<longrightarrow> (\<forall>isInHistory. \<exists>b'. applyTurn b isInHistory = Some b'
                     \<and> unat (livingCells b') = living_count (cells b')))
         \<and> (\<exists>b'. resetPlayboard b = Some b' \<and> unat (livingCells b') = living_count (cells b'))
         \<and> (\<forall>draws opts b'. initRandomBoard draws b opts = Some b'
                \<longrightarrow> unat (livingCells b') = living_count (cells b'))"
proof -
  have len: "unat (cellCount b) = length (cells b)" using wf_board_size(3)[OF assms] .
  have turn: "unat (livingCells b) = living_count (cells b)
            \<longrightarrow> (\<forall>isInHistory. \<exists>b'. applyTurn b isInHistory = Some b'
                     \<and> unat (livingCells b') = living_count (cells b'))"
  proof (intro impI allI)
    fix isInHistory
    assume inv: "unat (livingCells b) = living_count (cells b)"
    have "word_of_nat (unat (livingCells b)) = livingCells b" by simp
    then have inv0: "livingCells b = word_of_nat (living_count (cells b))" using inv by simp
    obtain b' where b': "applyTurn b isInHistory = Some b'"
      "livingCells b = word_of_nat (living_count (cells b))
         \<longrightarrow> livingCells b' = word_of_nat (living_count (cells b'))"
      using applyTurn_result[OF assms, of isInHistory] by blast
    have "wf_board b'" using applyTurn_wf[OF assms b'(1)] .
    then have "unat (cellCount b') = length (cells b')" by (rule wf_board_size(3))
    then have "unat (livingCells b') = living_count (cells b')"
      using b'(2) inv0 by (intro unat_of_living_count) simp_all
    then show "\<exists>b'. applyTurn b isInHistory = Some b'
                     \<and> unat (livingCells b') = living_count (cells b')"
      using b'(1) by blast
  qed
  obtain b0 where r: "resetPlayboard b = Some b0" "length (cells b0) = length (cells b)"
    "cellCount b0 = cellCount b" "livingCells b0 = 0" "living_count (cells b0) = 0"
    using resetPlayboard_result[OF len] by blast
  have reset: "\<exists>b'. resetPlayboard b = Some b' \<and> unat (livingCells b') = living_count (cells b')"
    using r(1,4,5) by simp
  have seed: "\<forall>draws opts b'. initRandomBoard draws b opts = Some b'
                \<longrightarrow> unat (livingCells b') = living_count (cells b')"
  proof (intro allI impI)
    fix draws opts b' assume "initRandomBoard draws b opts = Some b'"
    then obtain rs k where s: "seed_loop rs k b0 = Some b'"
      using r(1) by (auto simp: initRandomBoard_def split: list.splits option.splits)
    have p1: "unat (cellCount b0) = length (cells b0)" using r(2,3) len by simp
    have p2: "livingCells b0 = word_of_nat (living_count (cells b0))" using r(4,5) by simp
    have "length (cells b') = length (cells b0)" "cellCount b' = cellCount b0"
      "livingCells b' = word_of_nat (living_count (cells b'))"
      using seed_loop_result[OF p1 p2 s] by simp_all
    then show "unat (livingCells b') = living_count (cells b')"
      using p1 by (intro unat_of_living_count) simp_all
  qed
  show ?thesis using turn reset seed by blast
qed

text \<open>
  Claim C1, evaluated. The board has two living cells that are not neighbours. It is
  recorded, one turn is played, in which both cells die, the turn is recorded, and
  \<open>historyBackwards\<close> is called. It succeeds and the board shows the first recorded turn
  again, with its two living cells, while \<open>livingCells\<close> is still the 0 of the live board:
  replaying a turn (\<open>historyDisplayTurn\<close>) never writes the counter. A live turn played
  from that board takes the two deaths off the counter, which wraps to \<open>2^32 - 2\<close> on a
  board without living cells. On the board with the block and the single cell the counter
  is 4 for five living cells after the step back, so the main loop plays on when
  recording is switched off, and after the next live turn it is 3 for four living cells.
\<close>

theorem living_counter_after_replay:
  "map_option fst (replay_scenario two_cells_board) = Some True
   \<and> map_option (livingCells \<circ> snd \<circ> snd) (replay_scenario two_cells_board) = Some 0
   \<and> map_option (living_count \<circ> cells \<circ> snd \<circ> snd) (replay_scenario two_cells_board)
       = Some 2
   \<and> map_option (map state \<circ> turnData \<circ> fst \<circ> snd) (replay_scenario two_cells_board)
       = Some [[STABLE, STABLE], [DEAD, DEAD]]
   \<and> map_option (currentTurn \<circ> fst \<circ> snd) (replay_scenario two_cells_board) = Some 0
   \<and> map_option livingCells (resume_scenario two_cells_board) = Some 4294967294
   \<and> map_option (living_count \<circ> cells) (resume_scenario two_cells_board) = Some 0
   \<and> map_option (livingCells \<circ> snd \<circ> snd) (replay_scenario block_and_cell_board) = Some 4
   \<and> map_option (living_count \<circ> cells \<circ> snd \<circ> snd) (replay_scenario block_and_cell_board)
       = Some 5
   \<and> map_option livingCells (resume_scenario block_and_cell_board) = Some 3
   \<and> map_option (living_count \<circ> cells) (resume_scenario block_and_cell_board) = Some 4
   \<and> map_option turns (resume_scenario block_and_cell_board) = Some 1"
  by code_simp


end
